theory Spec2Isabelle
  imports Complex_Main
begin

section \<open>Data model of the Sankey diagram component\<close>

text \<open>
  The component \<^verbatim>\<open>SankeyDiagram\<close> turns a list of journeys into a layered flow graph.
  JavaScript numbers are IEEE 754 doubles. The counts of the journeys and the values of the
  links are integers, modelled as \<^typ>\<open>int\<close>; where the code adds two of them, the model
  rounds the sum as a double does (\<open>jsAdd\<close> below). Layer indices and array positions are
  \<^typ>\<open>nat\<close>. The numbers of the layout (thicknesses, heights, vertical positions,
  percentages) are \<^typ>\<open>real\<close>: the formulas of the layout are evaluated exactly, where
  the code rounds the result of every operation, so what is proved of them describes the
  layout up to that rounding.
  An attribute that the code assigns only in a later pass is an option that starts as
  \<open>None\<close> (JavaScript's \<^verbatim>\<open>undefined\<close>).

  Link objects are shared: the array \<^verbatim>\<open>links\<close> owns them, and the arrays
  \<^verbatim>\<open>incomingLinks\<close> and \<^verbatim>\<open>outgoingLinks\<close> of a node hold references to them.
  Links are only ever created by \<^verbatim>\<open>links.push\<close>, so a reference is modelled as the
  position of the link in \<^verbatim>\<open>links\<close>.

  The horizontal positions, the height of the canvas, the curves and the tooltips are
  left out: they only read what is modelled here.
\<close>

record journey =
  path :: "string list"
  count :: int
  percentage :: real

record link =
  source :: string
  target :: string
  link_value :: int
  sourceY :: "real option"
  targetY :: "real option"

record node =
  node_id :: string
  node_name :: string
  step :: nat
  incomingLinks :: "nat list"
  outgoingLinks :: "nat list"
  height :: "real option"
  node_count :: "int option"
  node_percentage :: "real option"
  node_y :: "real option"

record graph =
  nodes :: "node list"
  links :: "link list"

definition MIN_LINK_HEIGHT :: real where "MIN_LINK_HEIGHT = 0"
definition MAX_LINK_HEIGHT :: real where "MAX_LINK_HEIGHT = 100"
definition MIN_NODE_HEIGHT :: real where "MIN_NODE_HEIGHT = 2"

section \<open>Sums of counts\<close>

text \<open>
  A double has a significand of 53 bits: every integer of magnitude at most \<open>2^53\<close> is a
  double, and a larger integer is one only when the bits below its leading 53 bits are
  zero. \<open>excessBits n\<close> is the number of those low bits of \<open>n \<ge> 0\<close>.

  \<^verbatim>\<open>a + b\<close> on two doubles is the double nearest to the exact sum, and of two equally
  near ones that with the even significand. For integers \<open>a\<close> and \<open>b\<close> that are doubles
  this is \<open>roundDouble (a + b)\<close>. A sum of magnitude \<open>2^1024\<close> or more is \<^verbatim>\<open>Infinity\<close> in
  the code, which is no integer: the model is meant for sums below that.
\<close>

function excessBits :: "int \<Rightarrow> nat" where
  "excessBits n = (if n < 2 ^ 53 then 0 else Suc (excessBits (n div 2)))"
  by pat_completeness auto
termination
  by (relation "measure nat") auto

declare excessBits.simps [simp del]

definition roundDouble :: "int \<Rightarrow> int" where
  "roundDouble x =
     (let u = 2 ^ excessBits \<bar>x\<bar>; q = x div u; r = x mod u
      in if 2 * r < u then q * u
         else if u < 2 * r then (q + 1) * u
         else if even q then q * u else (q + 1) * u)"

definition jsAdd :: "int \<Rightarrow> int \<Rightarrow> int" where
  "jsAdd a b = roundDouble (a + b)"

section \<open>Node identities\<close>

text \<open>
  The template string \<^verbatim>\<open>`${i}_${stepName}`\<close> prints the index in decimal, then an
  underscore, then the label.
\<close>

definition digit_char :: "nat \<Rightarrow> char" where
  "digit_char d = char_of (48 + d)"

fun decimal :: "nat \<Rightarrow> string" where
  "decimal n = (if n < 10 then [digit_char n] else decimal (n div 10) @ [digit_char (n mod 10)])"

declare decimal.simps [simp del]

definition stepKey :: "nat \<Rightarrow> string \<Rightarrow> string" where
  "stepKey i stepName = decimal i @ ''_'' @ stepName"

section \<open>Building nodes and links\<close>

text \<open>
  \<^verbatim>\<open>xs.find(p)\<close> followed by a mutation of the object found changes the first element
  that satisfies \<open>p\<close>, in place.
\<close>

fun modifyFirst :: "('a \<Rightarrow> bool) \<Rightarrow> ('a \<Rightarrow> 'a) \<Rightarrow> 'a list \<Rightarrow> 'a list" where
  "modifyFirst p f [] = []"
| "modifyFirst p f (x # xs) = (if p x then f x # xs else x # modifyFirst p f xs)"

text \<open>\<^verbatim>\<open>journeys.slice(0, maxJourneys)\<close>: a negative end counts from the end of the array.\<close>

definition slice0 :: "'a list \<Rightarrow> int \<Rightarrow> 'a list" where
  "slice0 xs e =
     (let len = int (length xs);
          k = (if e < 0 then max (len + e) 0 else min e len)
      in take (nat k) xs)"

definition newNode :: "string \<Rightarrow> string \<Rightarrow> nat \<Rightarrow> node" where
  "newNode stepKey' stepName i =
     \<lparr>node_id = stepKey', node_name = stepName, step = i,
      incomingLinks = [], outgoingLinks = [],
      height = None, node_count = None, node_percentage = None, node_y = None\<rparr>"

definition newLink :: "string \<Rightarrow> string \<Rightarrow> int \<Rightarrow> link" where
  "newLink sourceKey targetKey c =
     \<lparr>source = sourceKey, target = targetKey, link_value = c, sourceY = None, targetY = None\<rparr>"

definition addNode :: "nat \<Rightarrow> string \<Rightarrow> node list \<Rightarrow> node list" where
  "addNode i stepName ns =
     (case find (\<lambda>n. node_id n = stepKey i stepName) ns of
        None \<Rightarrow> ns @ [newNode (stepKey i stepName) stepName i]
      | Some _ \<Rightarrow> ns)"

definition addLink :: "string \<Rightarrow> string \<Rightarrow> int \<Rightarrow> link list \<Rightarrow> link list" where
  "addLink sourceKey targetKey c ls =
     (case find (\<lambda>l. source l = sourceKey \<and> target l = targetKey) ls of
        Some existingLink \<Rightarrow>
          modifyFirst (\<lambda>l. source l = sourceKey \<and> target l = targetKey)
            (\<lambda>l. l\<lparr>link_value := jsAdd (link_value l) c\<rparr>) ls
      | None \<Rightarrow> ls @ [newLink sourceKey targetKey c])"

text \<open>One iteration of the \<^verbatim>\<open>for\<close> loop over the positions of a journey's path.\<close>

definition visitStep :: "journey \<Rightarrow> nat \<Rightarrow> graph \<Rightarrow> graph" where
  "visitStep j i g =
     (let stepName = path j ! i;
          ns = addNode i stepName (nodes g);
          ls = (if i + 1 < length (path j)
                then addLink (stepKey i stepName) (stepKey (i + 1) (path j ! (i + 1)))
                       (count j) (links g)
                else links g)
      in \<lparr>nodes = ns, links = ls\<rparr>)"

definition addJourney :: "journey \<Rightarrow> graph \<Rightarrow> graph" where
  "addJourney j g = fold (visitStep j) [0..<length (path j)] g"

definition emptyGraph :: graph where
  "emptyGraph = \<lparr>nodes = [], links = []\<rparr>"

definition buildGraph :: "journey list \<Rightarrow> int \<Rightarrow> graph" where
  "buildGraph journeys maxJourneys = fold addJourney (slice0 journeys maxJourneys) emptyGraph"

section \<open>Incoming and outgoing links of each node\<close>

text \<open>
  One iteration of \<^verbatim>\<open>links.forEach\<close>: the link at position \<open>r\<close> is pushed on the
  \<^verbatim>\<open>outgoingLinks\<close> of the first node whose id is its source and on the
  \<^verbatim>\<open>incomingLinks\<close> of the first node whose id is its target.
\<close>

definition trackLink :: "link list \<Rightarrow> nat \<Rightarrow> node list \<Rightarrow> node list" where
  "trackLink ls r ns =
     (let l = ls ! r;
          ns1 = modifyFirst (\<lambda>n. node_id n = source l)
                  (\<lambda>n. n\<lparr>outgoingLinks := outgoingLinks n @ [r]\<rparr>) ns
      in modifyFirst (\<lambda>n. node_id n = target l)
           (\<lambda>n. n\<lparr>incomingLinks := incomingLinks n @ [r]\<rparr>) ns1)"

definition trackLinks :: "graph \<Rightarrow> graph" where
  "trackLinks g = g\<lparr>nodes := fold (trackLink (links g)) [0..<length (links g)] (nodes g)\<rparr>"

section \<open>Flow scale, node heights and metadata\<close>

text \<open>
  Modelled from the spec: \<^verbatim>\<open>d3.max\<close> is a function of the d3 library, which is not in the
  repository; it gives the largest value, and \<^verbatim>\<open>undefined\<close> for an empty array.
  \<^verbatim>\<open>d3.max(links, link => link.value) || 1\<close>: no link, or a maximum of 0, gives 1.
\<close>

definition maxLinkValue :: "link list \<Rightarrow> int" where
  "maxLinkValue ls =
     (case ls of
        [] \<Rightarrow> 1
      | l # ls' \<Rightarrow> (let m = fold max (map link_value ls') (link_value l)
                   in if m = 0 then 1 else m))"

text \<open>
  Modelled from the spec: \<^verbatim>\<open>d3.scaleLinear().domain([d0, d1]).range([r0, r1])\<close> is a
  function of the d3 library, which is not in the repository. It is a linear interpolation
  from the domain to the range, not clamped; the library maps a domain of one point to the
  middle of the range.
\<close>

definition scaleLinear :: "real \<Rightarrow> real \<Rightarrow> real \<Rightarrow> real \<Rightarrow> real \<Rightarrow> real" where
  "scaleLinear d0 d1 r0 r1 x =
     (let t = (if d1 = d0 then 1 / 2 else (x - d0) / (d1 - d0))
      in r0 * (1 - t) + r1 * t)"

definition linkWidthScale :: "link list \<Rightarrow> int \<Rightarrow> real" where
  "linkWidthScale ls v =
     scaleLinear 0 (real_of_int (maxLinkValue ls)) MIN_LINK_HEIGHT MAX_LINK_HEIGHT (real_of_int v)"

text \<open>
  \<^verbatim>\<open>refs.reduce((sum, link) => sum + link.value, 0)\<close>: the values are added one by one,
  from the left, starting from 0.
\<close>

definition sumValues :: "link list \<Rightarrow> nat list \<Rightarrow> int" where
  "sumValues ls rs = foldl jsAdd 0 (map (\<lambda>r. link_value (ls ! r)) rs)"

text \<open>
  \<^verbatim>\<open>journey.path[node.step] === node.name\<close>: a position outside the path reads
  \<^verbatim>\<open>undefined\<close>, which is equal to no string.
\<close>

definition pathAt :: "journey \<Rightarrow> nat \<Rightarrow> string \<Rightarrow> bool" where
  "pathAt j i s = (i < length (path j) \<and> path j ! i = s)"

definition measureNode :: "journey list \<Rightarrow> link list \<Rightarrow> node \<Rightarrow> node" where
  "measureNode journeys ls n =
     (let incomingValue = sumValues ls (incomingLinks n);
          outgoingValue = sumValues ls (outgoingLinks n);
          maxValue = max incomingValue outgoingValue;
          matchingJourney = find (\<lambda>j. pathAt j (step n) (node_name n)) journeys
      in n\<lparr>height := Some (max (linkWidthScale ls maxValue) MIN_NODE_HEIGHT),
           node_count := Some (if step n = 0 then outgoingValue else incomingValue),
           node_percentage :=
             Some (case matchingJourney of Some j \<Rightarrow> percentage j | None \<Rightarrow> 0)\<rparr>)"

definition measureNodes :: "journey list \<Rightarrow> graph \<Rightarrow> graph" where
  "measureNodes journeys g = g\<lparr>nodes := map (measureNode journeys (links g)) (nodes g)\<rparr>"

section \<open>Vertical positions of the nodes\<close>

text \<open>
  Modelled from the spec: \<^verbatim>\<open>d3.group\<close> is a function of the d3 library, which is not in
  the repository. \<^verbatim>\<open>d3.group(nodes, d => d.step)\<close> is a map from each step, in the order
  the steps are first met, to the nodes of that step in array order. The members are
  references to the node objects, here positions in \<^verbatim>\<open>nodes\<close>.
\<close>

fun groupInsert :: "nat \<Rightarrow> nat \<Rightarrow> (nat \<times> nat list) list \<Rightarrow> (nat \<times> nat list) list" where
  "groupInsert s k [] = [(s, [k])]"
| "groupInsert s k ((s', ks) # gs) =
     (if s' = s then (s', ks @ [k]) # gs else (s', ks) # groupInsert s k gs)"

definition nodesByStep :: "node list \<Rightarrow> (nat \<times> nat list) list" where
  "nodesByStep ns = fold (\<lambda>k gs. groupInsert (step (ns ! k)) k gs) [0..<length ns] []"

definition nodeGap :: real where "nodeGap = 20"

fun stackColumn :: "real \<Rightarrow> nat list \<Rightarrow> node list \<Rightarrow> node list" where
  "stackColumn currentY [] ns = ns"
| "stackColumn currentY (k # ks) ns =
     (let h = the (height (ns ! k))
      in stackColumn (currentY + h + nodeGap) ks
           (ns[k := (ns ! k)\<lparr>node_y := Some (currentY + h / 2)\<rparr>]))"

definition positionNodes :: "(nat \<times> nat list) list \<Rightarrow> graph \<Rightarrow> graph" where
  "positionNodes byStep g =
     g\<lparr>nodes := fold (\<lambda>(s, stepNodes) ns. stackColumn 0 stepNodes ns) byStep (nodes g)\<rparr>"

section \<open>Link anchors\<close>

text \<open>
  \<^verbatim>\<open>refs.sort((a, b) => b.value - a.value)\<close>: \<^verbatim>\<open>Array.prototype.sort\<close> is stable, and
  so is the insertion sort \<^const>\<open>sort_key\<close>; the key is the negated value.
\<close>

definition sortByValue :: "link list \<Rightarrow> nat list \<Rightarrow> nat list" where
  "sortByValue ls rs = sort_key (\<lambda>r. - link_value (ls ! r)) rs"

fun stackOutgoing :: "(int \<Rightarrow> real) \<Rightarrow> real \<Rightarrow> nat list \<Rightarrow> link list \<Rightarrow> link list" where
  "stackOutgoing scale currentOutY [] ls = ls"
| "stackOutgoing scale currentOutY (r # rs) ls =
     (let linkHeight = scale (link_value (ls ! r))
      in stackOutgoing scale (currentOutY + linkHeight) rs
           (ls[r := (ls ! r)\<lparr>sourceY := Some (currentOutY + linkHeight / 2)\<rparr>]))"

fun stackIncoming :: "(int \<Rightarrow> real) \<Rightarrow> real \<Rightarrow> nat list \<Rightarrow> link list \<Rightarrow> link list" where
  "stackIncoming scale currentInY [] ls = ls"
| "stackIncoming scale currentInY (r # rs) ls =
     (let linkHeight = scale (link_value (ls ! r))
      in stackIncoming scale (currentInY + linkHeight) rs
           (ls[r := (ls ! r)\<lparr>targetY := Some (currentInY + linkHeight / 2)\<rparr>]))"

text \<open>The top edge of a node: \<^verbatim>\<open>node.y - node.height / 2\<close>.\<close>

definition nodeTop :: "node \<Rightarrow> real" where
  "nodeTop n = the (node_y n) - the (height n) / 2"

text \<open>One iteration of the second \<^verbatim>\<open>nodes.forEach\<close>, for the node at position \<open>k\<close>.\<close>

definition layoutNode :: "(int \<Rightarrow> real) \<Rightarrow> nat \<Rightarrow> graph \<Rightarrow> graph" where
  "layoutNode scale k g =
     (let n = nodes g ! k;
          inc = sortByValue (links g) (incomingLinks n);
          out = sortByValue (links g) (outgoingLinks n);
          n' = n\<lparr>incomingLinks := inc, outgoingLinks := out\<rparr>;
          outStartY = nodeTop n;
          ls1 = stackOutgoing scale outStartY out (links g);
          inStartY = nodeTop n;
          ls2 = stackIncoming scale inStartY inc ls1
      in \<lparr>nodes = (nodes g)[k := n'], links = ls2\<rparr>)"

definition layoutLinks :: "(int \<Rightarrow> real) \<Rightarrow> graph \<Rightarrow> graph" where
  "layoutLinks scale g = fold (layoutNode scale) [0..<length (nodes g)] g"

text \<open>The graph as it stands when the drawing and the hover handlers use it.\<close>

definition sankey :: "journey list \<Rightarrow> int \<Rightarrow> graph" where
  "sankey journeys maxJourneys =
     (let g0 = buildGraph journeys maxJourneys;
          byStep = nodesByStep (nodes g0);
          g1 = trackLinks g0;
          scale = linkWidthScale (links g1);
          g2 = measureNodes journeys g1;
          g3 = positionNodes byStep g2
      in layoutLinks scale g3)"

section \<open>Connected paths\<close>

datatype direction = Forward | Backward

text \<open>The key of the visited set: \<^verbatim>\<open>`${currentLink.source}|||${currentLink.target}`\<close>.\<close>

definition linkId :: "link \<Rightarrow> string" where
  "linkId l = source l @ ''|||'' @ target l"

definition nextLinks :: "graph \<Rightarrow> direction \<Rightarrow> link \<Rightarrow> nat list" where
  "nextLinks g d currentLink =
     (case d of
        Forward \<Rightarrow>
          (case find (\<lambda>n. node_id n = target currentLink) (nodes g) of
             Some targetNode \<Rightarrow> outgoingLinks targetNode
           | None \<Rightarrow> [])
      | Backward \<Rightarrow>
          (case find (\<lambda>n. node_id n = source currentLink) (nodes g) of
             Some sourceNode \<Rightarrow> incomingLinks sourceNode
           | None \<Rightarrow> []))"

text \<open>
  The loop ends because every link id is marked at most once, and only ids of links that
  the queue or some node refers to are ever marked.
\<close>

definition linkRefs :: "graph \<Rightarrow> nat set" where
  "linkRefs g = (\<Union>n \<in> set (nodes g). set (incomingLinks n) \<union> set (outgoingLinks n))"

definition unvisited :: "graph \<Rightarrow> nat list \<Rightarrow> string set \<Rightarrow> string set" where
  "unvisited g queue visited = (\<lambda>r. linkId (links g ! r)) ` (set queue \<union> linkRefs g) - visited"

function connectedLoop ::
  "graph \<Rightarrow> direction \<Rightarrow> nat list \<Rightarrow> string set \<Rightarrow> nat list \<Rightarrow> nat list" where
  "connectedLoop g d [] visited connectedLinks = connectedLinks"
| "connectedLoop g d (r # queue) visited connectedLinks =
     (let currentLink = links g ! r;
          lid = linkId currentLink
      in if lid \<in> visited then connectedLoop g d queue visited connectedLinks
         else connectedLoop g d (queue @ nextLinks g d currentLink) (insert lid visited)
                (connectedLinks @ [r]))"
  by pat_completeness auto
termination
proof (relation "inv_image (less_than <*lex*> less_than)
    (\<lambda>(g, d, queue, visited, acc). (card (unvisited g queue visited), length queue))")
  show "wf (inv_image (less_than <*lex*> less_than)
    (\<lambda>(g, d, queue, visited, acc). (card (unvisited g queue visited), length queue)))"
    by (intro wf_inv_image wf_lex_prod wf_less_than)
next
  fix g :: graph and d :: direction and r queue visited
    and connectedLinks :: "nat list" and currentLink lid
  assume "currentLink = links g ! r" "lid = linkId currentLink" "lid \<in> visited"
  have fin: "finite (unvisited g (r # queue) visited)"
    by (simp add: unvisited_def linkRefs_def)
  have "unvisited g queue visited \<subseteq> unvisited g (r # queue) visited"
    by (auto simp: unvisited_def)
  then have "card (unvisited g queue visited) \<le> card (unvisited g (r # queue) visited)"
    using fin by (rule card_mono [rotated])
  then show "((g, d, queue, visited, connectedLinks), (g, d, r # queue, visited, connectedLinks))
      \<in> inv_image (less_than <*lex*> less_than)
          (\<lambda>(g, d, queue, visited, acc). (card (unvisited g queue visited), length queue))"
    by auto
next
  fix g :: graph and d r queue visited and connectedLinks :: "nat list" and currentLink lid
  assume c: "currentLink = links g ! r" and l: "lid = linkId currentLink" and nv: "lid \<notin> visited"
  have fin: "finite (unvisited g (r # queue) visited)"
    by (simp add: unvisited_def linkRefs_def)
  have find_mem: "find p ns = Some n \<Longrightarrow> n \<in> set ns" for p and ns :: "node list" and n
    by (induction ns) (auto split: if_splits)
  have next_refs: "set (nextLinks g d currentLink) \<subseteq> linkRefs g"
    by (cases d) (auto simp: nextLinks_def linkRefs_def split: option.splits dest: find_mem [OF sym])
  have "lid \<in> unvisited g (r # queue) visited"
    using c l nv by (simp add: unvisited_def)
  moreover have "lid \<notin> unvisited g (queue @ nextLinks g d currentLink) (insert lid visited)"
    by (simp add: unvisited_def)
  moreover have "unvisited g (queue @ nextLinks g d currentLink) (insert lid visited)
      \<subseteq> unvisited g (r # queue) visited"
    using next_refs by (auto simp: unvisited_def)
  ultimately have "unvisited g (queue @ nextLinks g d currentLink) (insert lid visited)
      \<subset> unvisited g (r # queue) visited"
    by blast
  then have "card (unvisited g (queue @ nextLinks g d currentLink) (insert lid visited))
      < card (unvisited g (r # queue) visited)"
    using fin by (rule psubset_card_mono [rotated])
  then show "((g, d, queue @ nextLinks g d currentLink, insert lid visited, connectedLinks @ [r]),
       (g, d, r # queue, visited, connectedLinks))
      \<in> inv_image (less_than <*lex*> less_than)
          (\<lambda>(g, d, queue, visited, acc). (card (unvisited g queue visited), length queue))"
    by simp
qed

definition findAllConnectedPaths :: "graph \<Rightarrow> nat \<Rightarrow> direction \<Rightarrow> nat list" where
  "findAllConnectedPaths g startLink d = connectedLoop g d [startLink] {} []"


section \<open>Highlighting on node hover\<close>

text \<open>The handler \<^verbatim>\<open>mouseenter\<close> of a node, up to the two sets it hands to the drawing.\<close>

definition directLinks :: "graph \<Rightarrow> string \<Rightarrow> nat list" where
  "directLinks g nodeId =
     filter (\<lambda>r. source (links g ! r) = nodeId \<or> target (links g ! r) = nodeId)
       [0..<length (links g)]"

definition allConnectedLinks :: "graph \<Rightarrow> string \<Rightarrow> nat list" where
  "allConnectedLinks g nodeId =
     concat (map (\<lambda>r. [r] @ findAllConnectedPaths g r Forward @ findAllConnectedPaths g r Backward)
       (directLinks g nodeId))"

definition connectedLinkIds :: "graph \<Rightarrow> string \<Rightarrow> string set" where
  "connectedLinkIds g nodeId = set (map (\<lambda>r. linkId (links g ! r)) (allConnectedLinks g nodeId))"

definition connectedNodeIds :: "graph \<Rightarrow> string \<Rightarrow> string set" where
  "connectedNodeIds g nodeId =
     insert nodeId
       (set (concat (map (\<lambda>r. [source (links g ! r), target (links g ! r)])
          (allConnectedLinks g nodeId))))"

text \<open>
  The notions the highlight sets are compared with. Two node ids are weakly connected
  when a chain of links joins them, each link taken in either direction. A link is
  downstream of another when a chain of links leads to it, each starting at the node
  where the one before ends.
\<close>

definition edges :: "graph \<Rightarrow> (string \<times> string) set" where
  "edges g = set (map (\<lambda>l. (source l, target l)) (links g))"

definition weakComponent :: "graph \<Rightarrow> string \<Rightarrow> string set" where
  "weakComponent g nodeId = {n. (nodeId, n) \<in> (edges g \<union> (edges g)\<inverse>)\<^sup>*}"

definition follows :: "graph \<Rightarrow> direction \<Rightarrow> (nat \<times> nat) set" where
  "follows g d =
     {(r, r'). r < length (links g) \<and> r' < length (links g) \<and>
        (case d of
           Forward \<Rightarrow> target (links g ! r) = source (links g ! r')
         | Backward \<Rightarrow> source (links g ! r) = target (links g ! r'))}"

section \<open>Colours\<close>

text \<open>\<^verbatim>\<open>path.split("/")\<close>: the pieces between the separators; the empty string gives one empty piece.\<close>

fun splitOn :: "char \<Rightarrow> string \<Rightarrow> string list" where
  "splitOn c [] = [[]]"
| "splitOn c (x # xs) =
     (if x = c then [] # splitOn c xs
      else (case splitOn c xs of
              w # ws \<Rightarrow> (x # w) # ws
            | [] \<Rightarrow> [[x]]))"

definition getFirstSegment :: "string \<Rightarrow> string" where
  "getFirstSegment p =
     (let segments = filter (\<lambda>s. s \<noteq> []) (splitOn CHR ''/'' p)
      in if length segments > 0 then ''/'' @ hd segments else p)"

text \<open>
  A JavaScript \<^verbatim>\<open>Map\<close> iterates in insertion order, and \<^verbatim>\<open>set\<close> on a key that is
  present keeps its place: an association list.
\<close>

fun mapSet :: "'k \<Rightarrow> 'v \<Rightarrow> ('k \<times> 'v) list \<Rightarrow> ('k \<times> 'v) list" where
  "mapSet k v [] = [(k, v)]"
| "mapSet k v ((k', v') # m) = (if k' = k then (k', v) # m else (k', v') # mapSet k v m)"

definition countSegment :: "node \<Rightarrow> (string \<times> nat) list \<Rightarrow> (string \<times> nat) list" where
  "countSegment n m =
     (let segment = getFirstSegment (node_name n)
      in mapSet segment ((case map_of m segment of Some c \<Rightarrow> c | None \<Rightarrow> 0) + 1) m)"

definition segmentCounts :: "node list \<Rightarrow> (string \<times> nat) list" where
  "segmentCounts ns = fold countSegment ns []"

definition colorPalette :: "string list" where
  "colorPalette =
     [''hsl(160, 45%, 40%)'', ''hsl(220, 45%, 50%)'', ''hsl(270, 40%, 50%)'',
      ''hsl(25, 50%, 50%)'', ''hsl(340, 40%, 50%)'', ''hsl(190, 45%, 45%)'',
      ''hsl(45, 45%, 50%)'', ''hsl(0, 45%, 50%)'']"

definition defaultColor :: string where
  "defaultColor = ''hsl(0, 0%, 50%)''"

fun assignColors ::
  "nat \<Rightarrow> (string \<times> nat) list \<Rightarrow> (string \<times> string) list \<Rightarrow> (string \<times> string) list" where
  "assignColors colorIndex [] m = m"
| "assignColors colorIndex ((segment, c) # rest) m =
     (if c > 1
      then assignColors (colorIndex + 1) rest
             (mapSet segment (colorPalette ! (colorIndex mod length colorPalette)) m)
      else assignColors colorIndex rest m)"

definition segmentColors :: "node list \<Rightarrow> (string \<times> string) list" where
  "segmentColors ns = assignColors 0 (segmentCounts ns) []"

text \<open>\<^verbatim>\<open>segmentColors.get(segment) || defaultColor\<close>: an empty string is falsy too.\<close>

definition getNodeColor :: "node list \<Rightarrow> node \<Rightarrow> string" where
  "getNodeColor ns n =
     (case map_of (segmentColors ns) (getFirstSegment (node_name n)) of
        Some c \<Rightarrow> (if c = [] then defaultColor else c)
      | None \<Rightarrow> defaultColor)"

text \<open>\<open>linkColor\<close> is the colour of the theme, used when no node has the link's source as id.\<close>

definition getLinkColor :: "graph \<Rightarrow> string \<Rightarrow> link \<Rightarrow> string" where
  "getLinkColor g linkColor d =
     (case find (\<lambda>n. node_id n = source d) (nodes g) of
        Some sourceNode \<Rightarrow> getNodeColor (nodes g) sourceNode
      | None \<Rightarrow> linkColor)"

text \<open>The distinct elements of a list, in the order they are first seen.\<close>

fun firstSeen :: "'a list \<Rightarrow> 'a list" where
  "firstSeen [] = []"
| "firstSeen (x # xs) = x # filter (\<lambda>y. y \<noteq> x) (firstSeen xs)"

definition segmentKeys :: "node list \<Rightarrow> string list" where
  "segmentKeys ns = map (\<lambda>n. getFirstSegment (node_name n)) ns"

definition repeatedKeys :: "node list \<Rightarrow> string list" where
  "repeatedKeys ns = filter (\<lambda>k. 1 < count_list (segmentKeys ns) k) (firstSeen (segmentKeys ns))"

section \<open>Notions used in the statements and proofs\<close>

text \<open>The identity of a link, and the total value of the links with a given identity.\<close>

definition linkKey :: "link \<Rightarrow> string \<times> string" where
  "linkKey l = (source l, target l)"

definition linkFlow :: "link list \<Rightarrow> string \<Rightarrow> string \<Rightarrow> int" where
  "linkFlow ls s t = sum_list (map link_value (filter (\<lambda>l. source l = s \<and> target l = t) ls))"

text \<open>
  The sum of the counts of the journeys that go from label \<open>a\<close> at layer \<open>i\<close> to label
  \<open>b\<close> at layer \<open>i + 1\<close>.
\<close>

definition transitionFlow :: "journey list \<Rightarrow> nat \<Rightarrow> string \<Rightarrow> string \<Rightarrow> int" where
  "transitionFlow js i a b =
     (\<Sum>j\<leftarrow>js. if pathAt j i a \<and> pathAt j (i + 1) b then count j else 0)"

text \<open>
  The total value of the links selected by a condition on source and target, and what one
  journey adds to it when every addition is exact: its count, once for each of its
  transitions that satisfies the condition.
\<close>

definition flowBy :: "(string \<Rightarrow> string \<Rightarrow> bool) \<Rightarrow> link list \<Rightarrow> int" where
  "flowBy Q ls = sum_list (map link_value (filter (\<lambda>l. Q (source l) (target l)) ls))"

definition journeyFlow :: "(string \<Rightarrow> string \<Rightarrow> bool) \<Rightarrow> journey \<Rightarrow> int" where
  "journeyFlow Q j =
     (\<Sum>i\<leftarrow>[0..<length (path j)].
        if Suc i < length (path j) \<and>
           Q (stepKey i (path j ! i)) (stepKey (Suc i) (path j ! Suc i))
        then count j else 0)"

text \<open>
  Counts for which every sum of the build is exact: none is negative, and together they
  are at most \<open>2^53\<close>.
\<close>

definition exactCounts :: "journey list \<Rightarrow> bool" where
  "exactCounts js \<longleftrightarrow> (\<forall>j \<in> set js. 0 \<le> count j) \<and> sum_list (map count js) \<le> 2 ^ 53"

text \<open>
  Journeys whose counts add up to more than \<open>2^53\<close>: twice the same transition, and three
  transitions that leave the same node.
\<close>

definition repeatedJourneys :: "journey list" where
  "repeatedJourneys =
     [\<lparr>path = [''/a'', ''/b''], count = 9007199254740992, percentage = 50\<rparr>,
      \<lparr>path = [''/a'', ''/b''], count = 1, percentage = 50\<rparr>]"

definition fanJourneys :: "journey list" where
  "fanJourneys =
     [\<lparr>path = [''/a'', ''/b''], count = 9007199254740992, percentage = 50\<rparr>,
      \<lparr>path = [''/a'', ''/c''], count = 1, percentage = 25\<rparr>,
      \<lparr>path = [''/a'', ''/d''], count = 1, percentage = 25\<rparr>]"

text \<open>Journeys used to run the definitions on a concrete input.\<close>

definition exampleJourneys :: "journey list" where
  "exampleJourneys =
     [\<lparr>path = [''/a'', ''/b''], count = 5, percentage = 50\<rparr>,
      \<lparr>path = [''/a'', ''/c''], count = 3, percentage = 30\<rparr>,
      \<lparr>path = [''/a'', ''/b'', ''/d''], count = 2, percentage = 20\<rparr>]"

text \<open>
  The identity of a node by layer and label, and the two facts about the array
  \<^verbatim>\<open>nodes\<close> that hold throughout: ids are not repeated, and every id is the key of the
  node's layer and label.
\<close>

definition nodeKey :: "node \<Rightarrow> nat \<times> string" where
  "nodeKey n = (step n, node_name n)"

definition nodesOk :: "node list \<Rightarrow> bool" where
  "nodesOk ns \<longleftrightarrow>
     distinct (map node_id ns) \<and> (\<forall>n \<in> set ns. node_id n = stepKey (step n) (node_name n))"

text \<open>
  What \<^const>\<open>trackLinks\<close> adds to a node for the references \<open>rs\<close>, a node without its
  vertical position, whether a node has one, and the members of the groups of
  \<^const>\<open>nodesByStep\<close>.
\<close>

definition tracked :: "link list \<Rightarrow> nat list \<Rightarrow> node \<Rightarrow> node" where
  "tracked ls rs n =
     n\<lparr>incomingLinks := incomingLinks n @ filter (\<lambda>r. target (ls ! r) = node_id n) rs,
       outgoingLinks := outgoingLinks n @ filter (\<lambda>r. source (ls ! r) = node_id n) rs\<rparr>"

definition stripY :: "node \<Rightarrow> node" where
  "stripY n = n\<lparr>node_y := None\<rparr>"

definition hasY :: "node \<Rightarrow> bool" where
  "hasY n \<longleftrightarrow> node_y n \<noteq> None"

definition members :: "(nat \<times> nat list) list \<Rightarrow> nat set" where
  "members gs = (\<Union>g \<in> set gs. set (snd g))"

text \<open>
  What the later passes never change in a link, and the references to the links that
  leave and that enter the node with a given id, in the order of \<^verbatim>\<open>links\<close>.
\<close>

definition linkCore :: "link \<Rightarrow> string \<times> string \<times> int" where
  "linkCore l = (source l, target l, link_value l)"

definition outgoingOf :: "link list \<Rightarrow> string \<Rightarrow> nat list" where
  "outgoingOf ls k = filter (\<lambda>r. source (ls ! r) = k) [0..<length ls]"

definition incomingOf :: "link list \<Rightarrow> string \<Rightarrow> nat list" where
  "incomingOf ls k = filter (\<lambda>r. target (ls ! r) = k) [0..<length ls]"

text \<open>
  The state of \<^verbatim>\<open>incomingLinks\<close> and \<^verbatim>\<open>outgoingLinks\<close> between \<^const>\<open>trackLinks\<close> and the
  sorting, and a node after the sorting.
\<close>

definition wired :: "node list \<Rightarrow> link list \<Rightarrow> bool" where
  "wired ns ls \<longleftrightarrow>
     distinct (map node_id ns) \<and>
     (\<forall>n \<in> set ns. outgoingLinks n = outgoingOf ls (node_id n) \<and>
                     incomingLinks n = incomingOf ls (node_id n))"

definition sortedNode :: "link list \<Rightarrow> node \<Rightarrow> node" where
  "sortedNode ls n =
     n\<lparr>incomingLinks := sortByValue ls (incomingLinks n),
       outgoingLinks := sortByValue ls (outgoingLinks n)\<rparr>"

text \<open>
  The anchor of the \<open>i\<close>-th link of a stack \<open>rs\<close> that starts at \<open>startY\<close>: the thicknesses of
  the links before it, then half its own. \<open>laidOut\<close> is the state of the graph when
  \<^const>\<open>layoutLinks\<close> has treated the first \<open>k\<close> nodes.
\<close>

definition anchor :: "(int \<Rightarrow> real) \<Rightarrow> link list \<Rightarrow> real \<Rightarrow> nat list \<Rightarrow> nat \<Rightarrow> real" where
  "anchor scale ls startY rs i =
     startY + sum_list (map (\<lambda>r. scale (link_value (ls ! r))) (take i rs))
         + scale (link_value (ls ! (rs ! i))) / 2"

definition laidOut :: "(int \<Rightarrow> real) \<Rightarrow> node list \<Rightarrow> link list \<Rightarrow> nat \<Rightarrow> graph \<Rightarrow> bool" where
  "laidOut scale ns ls k g \<longleftrightarrow>
     nodes g = map (sortedNode ls) (take k ns) @ drop k ns \<and>
     length (links g) = length ls \<and>
     (\<forall>r. linkCore (links g ! r) = linkCore (ls ! r)) \<and>
     (\<forall>m < k. \<forall>i < length (outgoingLinks (ns ! m)).
        sourceY (links g ! (sortByValue ls (outgoingLinks (ns ! m)) ! i)) =
          Some (anchor scale ls (nodeTop (ns ! m)) (sortByValue ls (outgoingLinks (ns ! m))) i)) \<and>
     (\<forall>m < k. \<forall>i < length (incomingLinks (ns ! m)).
        targetY (links g ! (sortByValue ls (incomingLinks (ns ! m)) ! i)) =
          Some (anchor scale ls (nodeTop (ns ! m)) (sortByValue ls (incomingLinks (ns ! m))) i))"

text \<open>
  The graph before \<^const>\<open>layoutLinks\<close>, a node as \<^const>\<open>addNode\<close> creates it, and a node of
  the build after \<^const>\<open>trackLinks\<close> and \<^const>\<open>measureNodes\<close>.
\<close>

definition positioned :: "journey list \<Rightarrow> int \<Rightarrow> graph" where
  "positioned journeys maxJourneys =
     (let g0 = buildGraph journeys maxJourneys
      in positionNodes (nodesByStep (nodes g0)) (measureNodes journeys (trackLinks g0)))"

definition fresh :: "node \<Rightarrow> bool" where
  "fresh n \<longleftrightarrow> n = newNode (node_id n) (node_name n) (step n)"

definition measured :: "journey list \<Rightarrow> link list \<Rightarrow> node \<Rightarrow> node" where
  "measured js ls n = measureNode js ls (tracked ls [0..<length ls] n)"

text \<open>The journeys of the scenario with counts 5 and 3.\<close>

definition scenarioJourneys :: "journey list" where
  "scenarioJourneys =
     [\<lparr>path = [''/a'', ''/b''], count = 5, percentage = 62.5\<rparr>,
      \<lparr>path = [''/a'', ''/c''], count = 3, percentage = 37.5\<rparr>]"

text \<open>
  The order of the links in a stack: the larger value first and, with equal values, the
  link created first.
\<close>

definition stacksBefore :: "link list \<Rightarrow> nat \<Rightarrow> nat \<Rightarrow> bool" where
  "stacksBefore ls r r' \<longleftrightarrow>
     link_value (ls ! r) > link_value (ls ! r') \<or>
     (link_value (ls ! r) = link_value (ls ! r') \<and> r < r')"

text \<open>Journeys whose labels repeat a first segment.\<close>

definition colourJourneys :: "journey list" where
  "colourJourneys =
     [\<lparr>path = [''/x/1'', ''/y'', ''/x/2''], count = 4, percentage = 80\<rparr>,
      \<lparr>path = [''/x/1'', ''/y/3'', ''/z''], count = 1, percentage = 20\<rparr>]"

text \<open>
  The links that the hover on a node reaches: from a link that touches the node, forward
  along \<^const>\<open>follows\<close> only, or backward only.
\<close>

definition hoverReach :: "graph \<Rightarrow> string \<Rightarrow> nat set" where
  "hoverReach g nodeId =
     {r'. \<exists>r \<in> set (directLinks g nodeId).
            (r, r') \<in> (follows g Forward)\<^sup>* \<or> (r, r') \<in> (follows g Backward)\<^sup>*}"

section \<open>The node key is injective\<close>

lemma digit_char_inj: "a < 10 \<Longrightarrow> b < 10 \<Longrightarrow> digit_char a = digit_char b \<Longrightarrow> a = b"
proof -
  assume a: "a < 10" and b: "b < 10" and e: "digit_char a = digit_char b"
  from e have "(of_char (char_of (48 + a) :: char) :: nat) = of_char (char_of (48 + b) :: char)"
    by (simp add: digit_char_def)
  with a b show "a = b" by (simp add: of_char_of)
qed

lemma digit_char_not_underscore: "d < 10 \<Longrightarrow> digit_char d \<noteq> CHR ''_''"
proof
  assume d: "d < 10" and e: "digit_char d = CHR ''_''"
  from e have "(of_char (char_of (48 + d) :: char) :: nat) = of_char CHR ''_''"
    by (simp add: digit_char_def)
  with d show False by (simp add: of_char_of)
qed

lemma decimal_nonempty: "decimal n \<noteq> []"
  by (subst decimal.simps) simp

lemma underscore_notin_decimal: "CHR ''_'' \<notin> set (decimal n)"
proof (induction n rule: decimal.induct)
  case (1 n)
  show ?case
  proof (cases "n < 10")
    case True
    then show ?thesis using digit_char_not_underscore [of n]
      by (subst decimal.simps) auto
  next
    case False
    then show ?thesis using 1 digit_char_not_underscore [of "n mod 10"]
      by (subst decimal.simps) auto
  qed
qed

lemma decimal_inj: "decimal m = decimal n \<Longrightarrow> m = n"
proof (induction m arbitrary: n rule: decimal.induct)
  case (1 m)
  show ?case
  proof (cases "m < 10")
    case True
    show ?thesis
    proof (cases "n < 10")
      case True
      with \<open>m < 10\<close> "1.prems" show ?thesis
        by (simp add: decimal.simps [of m] decimal.simps [of n] digit_char_inj)
    next
      case False
      with \<open>m < 10\<close> "1.prems" decimal_nonempty [of "n div 10"] show ?thesis
        by (simp add: decimal.simps [of m] decimal.simps [of n])
    qed
  next
    case False
    show ?thesis
    proof (cases "n < 10")
      case True
      with \<open>\<not> m < 10\<close> "1.prems" decimal_nonempty [of "m div 10"] show ?thesis
        by (simp add: decimal.simps [of m] decimal.simps [of n])
    next
      case nf: False
      with False "1.prems" have e: "decimal (m div 10) = decimal (n div 10)"
        and d: "digit_char (m mod 10) = digit_char (n mod 10)"
        by (simp_all add: decimal.simps [of m] decimal.simps [of n])
      from "1.IH" [OF False e] have "m div 10 = n div 10" .
      moreover from d have "m mod 10 = n mod 10" by (auto intro: digit_char_inj)
      ultimately show ?thesis by (metis div_mult_mod_eq)
    qed
  qed
qed

lemma split_at_fresh:
  "x \<notin> set xs \<Longrightarrow> x \<notin> set ys \<Longrightarrow> xs @ x # a = ys @ x # b \<Longrightarrow> xs = ys \<and> a = b"
proof (induction xs arbitrary: ys)
  case Nil
  then show ?case by (cases ys) auto
next
  case (Cons z zs)
  then show ?case by (cases ys) auto
qed

lemma stepKey_inj [simp]: "stepKey i a = stepKey j b \<longleftrightarrow> i = j \<and> a = b"
  using split_at_fresh [OF underscore_notin_decimal underscore_notin_decimal, of i a j b]
  by (auto simp: stepKey_def dest: decimal_inj)

section \<open>Finding and changing the first match\<close>

lemma find_None_key: "find (\<lambda>x. key x = k) xs = None \<longleftrightarrow> k \<notin> key ` set xs"
  by (induction xs) auto

lemma find_Some_mem: "find p xs = Some x \<Longrightarrow> x \<in> set xs \<and> p x"
  by (induction xs) (auto split: if_splits)

lemma length_modifyFirst [simp]: "length (modifyFirst p f xs) = length xs"
  by (induction xs) auto

lemma map_modifyFirst_frame: "(\<And>x. h (f x) = h x) \<Longrightarrow> map h (modifyFirst p f xs) = map h xs"
  by (induction xs) auto

lemma modifyFirst_distinct:
  "distinct (map key xs) \<Longrightarrow> (\<And>x. key (f x) = key x) \<Longrightarrow>
   modifyFirst (\<lambda>x. key x = k) f xs = map (\<lambda>x. if key x = k then f x else x) xs"
proof (induction xs)
  case Nil
  then show ?case by simp
next
  case (Cons x xs)
  have "k \<notin> key ` set xs \<Longrightarrow> map (\<lambda>x. if key x = k then f x else x) xs = xs"
    by (induction xs) auto
  with Cons show ?case by auto
qed

section \<open>Sums that are exact\<close>

lemma excessBits_small: "n < 2 ^ 53 \<Longrightarrow> excessBits n = 0"
  by (subst excessBits.simps) simp

lemma excessBits_limit: "excessBits (2 ^ 53) = 1"
  by (subst excessBits.simps) (simp add: excessBits_small)

lemma roundDouble_exact: "\<bar>x\<bar> \<le> 2 ^ 53 \<Longrightarrow> roundDouble x = x"
proof (cases "\<bar>x\<bar> < 2 ^ 53")
  case True
  then show ?thesis by (simp add: roundDouble_def excessBits_small)
next
  case False
  assume "\<bar>x\<bar> \<le> 2 ^ 53"
  with False have x: "\<bar>x\<bar> = 2 ^ 53" by simp
  then have "x = 2 ^ 53 \<or> x = - (2 ^ 53)" by (simp add: abs_if split: if_splits)
  then have "even x" by auto
  moreover have "excessBits \<bar>x\<bar> = 1" by (simp only: x excessBits_limit)
  ultimately show ?thesis by (simp add: roundDouble_def)
qed

lemma jsAdd_exact: "\<bar>a + b\<bar> \<le> 2 ^ 53 \<Longrightarrow> jsAdd a b = a + b"
  by (simp add: jsAdd_def roundDouble_exact)

lemma foldl_jsAdd_exact:
  "\<forall>v \<in> set vs. 0 \<le> v \<Longrightarrow> 0 \<le> a \<Longrightarrow> a + sum_list vs \<le> 2 ^ 53 \<Longrightarrow>
   foldl jsAdd a vs = a + sum_list vs"
proof (induction vs arbitrary: a)
  case Nil
  then show ?case by simp
next
  case (Cons v vs)
  from Cons.prems have "0 \<le> sum_list vs" by (intro sum_list_nonneg) simp
  with Cons.prems have "\<bar>a + v\<bar> \<le> 2 ^ 53" by simp
  then have "jsAdd a v = a + v" by (rule jsAdd_exact)
  with Cons show ?case by simp
qed

section \<open>Links after the build\<close>

lemma find_link_None:
  "find (\<lambda>l. source l = s \<and> target l = t) ls = None \<longleftrightarrow> (s, t) \<notin> linkKey ` set ls"
  by (induction ls) (auto simp: linkKey_def)

lemma linkKey_addLink:
  "map linkKey (addLink s t c ls) =
     (if (s, t) \<in> set (map linkKey ls) then map linkKey ls else map linkKey ls @ [(s, t)])"
proof (cases "find (\<lambda>l. source l = s \<and> target l = t) ls")
  case None
  then show ?thesis
    using find_link_None [of s t ls] by (simp add: addLink_def linkKey_def newLink_def)
next
  case (Some l)
  then have "(s, t) \<in> linkKey ` set ls" using find_link_None [of s t ls] by auto
  with Some show ?thesis
    by (simp add: addLink_def map_modifyFirst_frame linkKey_def)
qed

lemma distinct_addLink:
  "distinct (map linkKey ls) \<Longrightarrow> distinct (map linkKey (addLink s t c ls))"
  by (simp add: linkKey_addLink)

lemma linkFlow_absent: "(s, t) \<notin> linkKey ` set ls \<Longrightarrow> linkFlow ls s t = 0"
  by (induction ls) (auto simp: linkFlow_def linkKey_def)

lemma linkFlow_distinct:
  "distinct (map linkKey ls) \<Longrightarrow> l \<in> set ls \<Longrightarrow> link_value l = linkFlow ls (source l) (target l)"
proof (induction ls)
  case Nil
  then show ?case by simp
next
  case (Cons x xs)
  show ?case
  proof (cases "l = x")
    case True
    with Cons.prems linkFlow_absent [of "source x" "target x" xs] show ?thesis
      by (simp add: linkFlow_def linkKey_def)
  next
    case False
    with Cons.prems have m: "l \<in> set xs" by simp
    have "linkKey x \<notin> linkKey ` set xs" using Cons.prems by simp
    with m have "linkKey l \<noteq> linkKey x" by (metis imageI)
    with m Cons show ?thesis by (auto simp: linkFlow_def linkKey_def)
  qed
qed

lemma linkFlow_flowBy: "linkFlow ls s t = flowBy (\<lambda>s' t'. s' = s \<and> t' = t) ls"
  by (simp add: linkFlow_def flowBy_def)

lemma flowBy_append [simp]: "flowBy Q (xs @ ys) = flowBy Q xs + flowBy Q ys"
  by (simp add: flowBy_def)

text \<open>
  Adding a count to a link is exact when the new value is within \<open>2^53\<close>; the value of the
  link is then its \<^const>\<open>linkFlow\<close>, because no other link has its source and target.
\<close>

lemma flowBy_modifyFirst:
  assumes "distinct (map linkKey ls)" and "\<bar>linkFlow ls s t + c\<bar> \<le> 2 ^ 53"
  shows "flowBy Q (modifyFirst (\<lambda>l. source l = s \<and> target l = t)
                    (\<lambda>l. l\<lparr>link_value := jsAdd (link_value l) c\<rparr>) ls)
       = flowBy Q ls + (if Q s t \<and> (s, t) \<in> linkKey ` set ls then c else 0)"
  using assms
proof (induction ls)
  case Nil
  then show ?case by (simp add: flowBy_def)
next
  case (Cons x xs)
  show ?case
  proof (cases "source x = s \<and> target x = t")
    case True
    with Cons.prems(1) have "(s, t) \<notin> linkKey ` set xs" by (auto simp: linkKey_def)
    then have "linkFlow xs s t = 0" by (rule linkFlow_absent)
    with True have "linkFlow (x # xs) s t = link_value x" by (simp add: linkFlow_def)
    with Cons.prems(2) have "jsAdd (link_value x) c = link_value x + c"
      by (simp add: jsAdd_exact)
    with True show ?thesis by (simp add: flowBy_def linkKey_def)
  next
    case False
    then have "linkFlow (x # xs) s t = linkFlow xs s t" by (auto simp: linkFlow_def)
    with Cons have "flowBy Q (modifyFirst (\<lambda>l. source l = s \<and> target l = t)
                    (\<lambda>l. l\<lparr>link_value := jsAdd (link_value l) c\<rparr>) xs)
       = flowBy Q xs + (if Q s t \<and> (s, t) \<in> linkKey ` set xs then c else 0)"
      by simp
    with False show ?thesis by (auto simp: flowBy_def linkKey_def)
  qed
qed

lemma flowBy_addLink:
  assumes "distinct (map linkKey ls)" and "\<bar>linkFlow ls s t + c\<bar> \<le> 2 ^ 53"
  shows "flowBy Q (addLink s t c ls) = flowBy Q ls + (if Q s t then c else 0)"
proof (cases "find (\<lambda>l. source l = s \<and> target l = t) ls")
  case None
  then show ?thesis
    by (simp add: addLink_def) (simp add: flowBy_def newLink_def)
next
  case (Some l)
  then have "(s, t) \<in> linkKey ` set ls" using find_link_None [of s t ls] by auto
  with Some show ?thesis
    by (simp add: addLink_def flowBy_modifyFirst [OF assms])
qed

subsection \<open>One journey\<close>

lemma nodes_visitStep [simp]: "nodes (visitStep j i g) = addNode i (path j ! i) (nodes g)"
  by (simp add: visitStep_def Let_def)

lemma links_visitStep [simp]:
  "links (visitStep j i g) =
     (if Suc i < length (path j)
      then addLink (stepKey i (path j ! i)) (stepKey (Suc i) (path j ! (Suc i))) (count j) (links g)
      else links g)"
  by (simp add: visitStep_def Let_def)

lemma fold_upt_Suc: "fold f [0..<Suc k] g = f k (fold f [0..<k] g)"
  by simp

lemma distinct_links_walk:
  "distinct (map linkKey (links g)) \<Longrightarrow> distinct (map linkKey (links (fold (visitStep j) [0..<k] g)))"
  by (induction k) (auto simp: distinct_addLink)

lemma linkKeys_walk:
  "linkKey ` set (links (fold (visitStep j) [0..<k] g)) =
     linkKey ` set (links g) \<union>
     {(stepKey i (path j ! i), stepKey (Suc i) (path j ! (Suc i))) | i. i < k \<and> Suc i < length (path j)}"
proof (induction k)
  case 0
  then show ?case by simp
next
  case (Suc k)
  have "linkKey ` set (addLink s t c ls) = insert (s, t) (linkKey ` set ls)" for s t c ls
    using arg_cong [OF linkKey_addLink [of s t c ls], of set] by (auto split: if_splits)
  with Suc show ?case
    by (auto simp: less_Suc_eq)
qed

lemma sum_single_index:
  "(\<Sum>i\<leftarrow>[0..<k]. if i = a \<and> q i then c else 0) = (if a < k \<and> q a then (c::int) else 0)"
  by (induction k) auto

lemma sum_at_most_one:
  assumes "\<And>i i'. P i \<Longrightarrow> P i' \<Longrightarrow> i = i'"
  shows "(\<Sum>i\<leftarrow>[0..<k]. if P i then c else 0) = (if \<exists>i<k. P i then (c::int) else 0)"
proof (induction k)
  case 0
  then show ?case by simp
next
  case (Suc k)
  show ?case
  proof (cases "P k")
    case True
    have "\<not> (\<exists>i<k. P i)"
    proof
      assume "\<exists>i<k. P i"
      then obtain i where "i < k" "P i" by blast
      with True assms [of i k] show False by simp
    qed
    with True Suc show ?thesis by auto
  next
    case False
    then have "(\<exists>i<Suc k. P i) = (\<exists>i<k. P i)" by (auto simp: less_Suc_eq)
    with False Suc show ?thesis by simp
  qed
qed

text \<open>
  The walk along one journey, when adding its count to each link it meets is exact. A link
  is met at most once, because the keys of the layers differ.
\<close>

lemma flowBy_walk:
  assumes d: "distinct (map linkKey (links g))"
    and b: "\<forall>i. Suc i < length (path j) \<longrightarrow>
              \<bar>linkFlow (links g) (stepKey i (path j ! i)) (stepKey (Suc i) (path j ! Suc i))
                + count j\<bar> \<le> 2 ^ 53"
  shows "flowBy Q (links (fold (visitStep j) [0..<k] g)) =
     flowBy Q (links g) +
     (\<Sum>i\<leftarrow>[0..<k]. if Suc i < length (path j) \<and>
                        Q (stepKey i (path j ! i)) (stepKey (Suc i) (path j ! Suc i))
                     then count j else 0)"
proof (induction k arbitrary: Q)
  case 0
  then show ?case by simp
next
  case (Suc k)
  let ?gk = "fold (visitStep j) [0..<k] g"
  let ?s = "stepKey k (path j ! k)" and ?t = "stepKey (Suc k) (path j ! Suc k)"
  show ?case
  proof (cases "Suc k < length (path j)")
    case True
    have "linkFlow (links ?gk) ?s ?t =
        linkFlow (links g) ?s ?t +
        (\<Sum>i\<leftarrow>[0..<k]. if Suc i < length (path j) \<and>
               stepKey i (path j ! i) = ?s \<and> stepKey (Suc i) (path j ! Suc i) = ?t
             then count j else 0)"
      unfolding linkFlow_flowBy by (rule Suc.IH)
    also have "(\<Sum>i\<leftarrow>[0..<k]. if Suc i < length (path j) \<and>
               stepKey i (path j ! i) = ?s \<and> stepKey (Suc i) (path j ! Suc i) = ?t
             then count j else 0) = (\<Sum>i\<leftarrow>[0..<k]. 0)"
      by (intro arg_cong [where f = sum_list] map_cong) auto
    finally have "linkFlow (links ?gk) ?s ?t = linkFlow (links g) ?s ?t" by simp
    with b True have bound: "\<bar>linkFlow (links ?gk) ?s ?t + count j\<bar> \<le> 2 ^ 53" by simp
    have dk: "distinct (map linkKey (links ?gk))" by (rule distinct_links_walk [OF d])
    from flowBy_addLink [OF dk bound, of Q] Suc.IH [of Q] True show ?thesis by simp
  next
    case False
    with Suc.IH [of Q] show ?thesis by simp
  qed
qed

lemma flowBy_addJourney:
  assumes "distinct (map linkKey (links g))"
    and "\<forall>i. Suc i < length (path j) \<longrightarrow>
              \<bar>linkFlow (links g) (stepKey i (path j ! i)) (stepKey (Suc i) (path j ! Suc i))
                + count j\<bar> \<le> 2 ^ 53"
  shows "flowBy Q (links (addJourney j g)) = flowBy Q (links g) + journeyFlow Q j"
  using flowBy_walk [OF assms, of Q "length (path j)"]
  by (simp add: addJourney_def journeyFlow_def)

lemma journeyFlow_link:
  "journeyFlow (\<lambda>s t. s = stepKey a x \<and> t = stepKey (Suc a) y) j =
     (if pathAt j a x \<and> pathAt j (Suc a) y then count j else 0)"
proof -
  have "journeyFlow (\<lambda>s t. s = stepKey a x \<and> t = stepKey (Suc a) y) j =
      (\<Sum>i\<leftarrow>[0..<length (path j)].
         if i = a \<and> (Suc i < length (path j) \<and> path j ! i = x \<and> path j ! Suc i = y)
         then count j else 0)"
    unfolding journeyFlow_def by (intro arg_cong [where f = sum_list] map_cong) auto
  also have "\<dots> = (if a < length (path j) \<and>
                       (Suc a < length (path j) \<and> path j ! a = x \<and> path j ! Suc a = y)
                    then count j else 0)"
    by (rule sum_single_index)
  also have "\<dots> = (if pathAt j a x \<and> pathAt j (Suc a) y then count j else 0)"
    by (auto simp: pathAt_def)
  finally show ?thesis .
qed

lemma journeyFlow_bounds:
  assumes c: "0 \<le> count j"
    and u: "\<And>i i'. Q (stepKey i (path j ! i)) (stepKey (Suc i) (path j ! Suc i)) \<Longrightarrow>
              Q (stepKey i' (path j ! i')) (stepKey (Suc i') (path j ! Suc i')) \<Longrightarrow> i = i'"
  shows "0 \<le> journeyFlow Q j" and "journeyFlow Q j \<le> count j"
proof -
  have "journeyFlow Q j =
      (if \<exists>i<length (path j). Suc i < length (path j) \<and>
            Q (stepKey i (path j ! i)) (stepKey (Suc i) (path j ! Suc i))
       then count j else 0)"
    unfolding journeyFlow_def by (rule sum_at_most_one) (use u in blast)
  with c show "0 \<le> journeyFlow Q j" and "journeyFlow Q j \<le> count j" by simp_all
qed

lemma journeyFlow_link_bounds:
  assumes "0 \<le> count j"
  shows "0 \<le> journeyFlow (\<lambda>s' t'. s' = s \<and> t' = t) j"
    and "journeyFlow (\<lambda>s' t'. s' = s \<and> t' = t) j \<le> count j"
  by (rule journeyFlow_bounds [OF assms], metis stepKey_inj)+

lemma journeyFlow_source_bounds:
  assumes "0 \<le> count j"
  shows "0 \<le> journeyFlow (\<lambda>s' t'. s' = k) j" and "journeyFlow (\<lambda>s' t'. s' = k) j \<le> count j"
  by (rule journeyFlow_bounds [OF assms], metis stepKey_inj)+

lemma journeyFlow_target_bounds:
  assumes "0 \<le> count j"
  shows "0 \<le> journeyFlow (\<lambda>s' t'. t' = k) j" and "journeyFlow (\<lambda>s' t'. t' = k) j \<le> count j"
  by (rule journeyFlow_bounds [OF assms], metis stepKey_inj nat.inject)+

lemma linkKeys_addJourney:
  "linkKey ` set (links (addJourney j g)) =
     linkKey ` set (links g) \<union>
     {(stepKey i (path j ! i), stepKey (Suc i) (path j ! (Suc i))) | i. Suc i < length (path j)}"
  by (auto simp: addJourney_def linkKeys_walk)

lemma distinct_links_addJourney:
  "distinct (map linkKey (links g)) \<Longrightarrow> distinct (map linkKey (links (addJourney j g)))"
  by (simp add: addJourney_def distinct_links_walk)

subsection \<open>All journeys\<close>

lemma distinct_links_fold:
  "distinct (map linkKey (links g)) \<Longrightarrow> distinct (map linkKey (links (fold addJourney js g)))"
  by (induction js arbitrary: g) (auto simp: distinct_links_addJourney)

lemma linkKeys_fold:
  "linkKey ` set (links (fold addJourney js g)) =
     linkKey ` set (links g) \<union>
     {(stepKey i (path j ! i), stepKey (Suc i) (path j ! (Suc i))) | i j. j \<in> set js \<and> Suc i < length (path j)}"
  by (induction js arbitrary: g) (auto simp: linkKeys_addJourney)

text \<open>All journeys, when their counts are not negative and the sums stay within \<open>2^53\<close>.\<close>

lemma flowBy_fold:
  assumes "distinct (map linkKey (links g))" and "\<forall>j \<in> set js. 0 \<le> count j"
    and "\<forall>s t. 0 \<le> linkFlow (links g) s t \<and>
               linkFlow (links g) s t + sum_list (map count js) \<le> 2 ^ 53"
  shows "flowBy Q (links (fold addJourney js g)) =
     flowBy Q (links g) + (\<Sum>j\<leftarrow>js. journeyFlow Q j)"
  using assms
proof (induction js arbitrary: g)
  case Nil
  then show ?case by simp
next
  case (Cons j js)
  from Cons.prems(2) have c: "0 \<le> count j" and cs: "\<forall>j \<in> set js. 0 \<le> count j"
    by simp_all
  from cs have tot: "0 \<le> sum_list (map count js)" by (intro sum_list_nonneg) auto
  from Cons.prems(3) have p: "0 \<le> linkFlow (links g) s t"
      "linkFlow (links g) s t + (count j + sum_list (map count js)) \<le> 2 ^ 53" for s t
    by simp_all
  have b: "\<forall>i. Suc i < length (path j) \<longrightarrow>
              \<bar>linkFlow (links g) (stepKey i (path j ! i)) (stepKey (Suc i) (path j ! Suc i))
                + count j\<bar> \<le> 2 ^ 53"
  proof (intro allI impI)
    fix i
    from p [of "stepKey i (path j ! i)" "stepKey (Suc i) (path j ! Suc i)"] c tot
    show "\<bar>linkFlow (links g) (stepKey i (path j ! i)) (stepKey (Suc i) (path j ! Suc i))
                + count j\<bar> \<le> 2 ^ 53"
      by simp
  qed
  have step: "flowBy Q' (links (addJourney j g)) = flowBy Q' (links g) + journeyFlow Q' j" for Q'
    by (rule flowBy_addJourney [OF Cons.prems(1) b])
  have d': "distinct (map linkKey (links (addJourney j g)))"
    by (rule distinct_links_addJourney [OF Cons.prems(1)])
  have b': "\<forall>s t. 0 \<le> linkFlow (links (addJourney j g)) s t \<and>
               linkFlow (links (addJourney j g)) s t + sum_list (map count js) \<le> 2 ^ 53"
  proof (intro allI)
    fix s t
    have "linkFlow (links (addJourney j g)) s t =
        linkFlow (links g) s t + journeyFlow (\<lambda>s' t'. s' = s \<and> t' = t) j"
      by (simp add: linkFlow_flowBy step)
    with journeyFlow_link_bounds [OF c, of s t] p [of s t]
    show "0 \<le> linkFlow (links (addJourney j g)) s t \<and>
               linkFlow (links (addJourney j g)) s t + sum_list (map count js) \<le> 2 ^ 53"
      by simp
  qed
  from Cons.IH [OF d' cs b'] step [of Q] show ?case by simp
qed

lemma linkFlow_emptyGraph: "linkFlow (links emptyGraph) s t = 0"
  by (simp add: linkFlow_def emptyGraph_def)

lemma distinct_links_buildGraph: "distinct (map linkKey (links (buildGraph js m)))"
  by (simp add: buildGraph_def distinct_links_fold emptyGraph_def)

lemma linkKeys_buildGraph:
  "linkKey ` set (links (buildGraph js m)) =
     {(stepKey i (path j ! i), stepKey (Suc i) (path j ! (Suc i))) | i j.
        j \<in> set (slice0 js m) \<and> Suc i < length (path j)}"
  by (simp add: buildGraph_def linkKeys_fold emptyGraph_def)

lemma flowBy_buildGraph:
  assumes "exactCounts (slice0 js m)"
  shows "flowBy Q (links (buildGraph js m)) = (\<Sum>j\<leftarrow>slice0 js m. journeyFlow Q j)"
proof -
  have "distinct (map linkKey (links emptyGraph))" by (simp add: emptyGraph_def)
  moreover from assms have "\<forall>j \<in> set (slice0 js m). 0 \<le> count j"
    by (simp add: exactCounts_def)
  moreover from assms
  have "\<forall>s t. 0 \<le> linkFlow (links emptyGraph) s t \<and>
          linkFlow (links emptyGraph) s t + sum_list (map count (slice0 js m)) \<le> 2 ^ 53"
    by (simp add: exactCounts_def linkFlow_emptyGraph)
  ultimately have "flowBy Q (links (fold addJourney (slice0 js m) emptyGraph)) =
      flowBy Q (links emptyGraph) + (\<Sum>j\<leftarrow>slice0 js m. journeyFlow Q j)"
    by (rule flowBy_fold)
  then show ?thesis by (simp add: buildGraph_def) (simp add: emptyGraph_def flowBy_def)
qed

lemma link_value_buildGraph:
  assumes "exactCounts (slice0 js m)" and "l \<in> set (links (buildGraph js m))"
    and "source l = stepKey a x" and "target l = stepKey (Suc a) y"
  shows "link_value l = transitionFlow (slice0 js m) a x y"
proof -
  have "link_value l = linkFlow (links (buildGraph js m)) (source l) (target l)"
    using assms(2) by (rule linkFlow_distinct [OF distinct_links_buildGraph])
  also have "\<dots> = (\<Sum>j\<leftarrow>slice0 js m.
      journeyFlow (\<lambda>s t. s = stepKey a x \<and> t = stepKey (Suc a) y) j)"
    by (simp add: assms(3,4) linkFlow_flowBy flowBy_buildGraph [OF assms(1)])
  also have "\<dots> = transitionFlow (slice0 js m) a x y"
    by (simp add: journeyFlow_link transitionFlow_def)
  finally show ?thesis .
qed

lemma link_values_nonneg:
  assumes "exactCounts (slice0 js m)" and "l \<in> set (links (buildGraph js m))"
  shows "0 \<le> link_value l"
proof -
  have "link_value l = linkFlow (links (buildGraph js m)) (source l) (target l)"
    using assms(2) by (rule linkFlow_distinct [OF distinct_links_buildGraph])
  also have "\<dots> = (\<Sum>j\<leftarrow>slice0 js m.
      journeyFlow (\<lambda>s t. s = source l \<and> t = target l) j)"
    by (simp add: linkFlow_flowBy flowBy_buildGraph [OF assms(1)])
  finally show ?thesis
    using assms(1) by (auto simp: exactCounts_def intro!: sum_list_nonneg journeyFlow_link_bounds)
qed

lemma flow_of_node_buildGraph:
  assumes "exactCounts (slice0 js m)"
  shows "sum_list (map link_value (filter (\<lambda>l. source l = k) (links (buildGraph js m)))) \<le> 2 ^ 53"
    and "sum_list (map link_value (filter (\<lambda>l. target l = k) (links (buildGraph js m)))) \<le> 2 ^ 53"
proof -
  let ?js = "slice0 js m"
  from assms have c: "\<And>j. j \<in> set ?js \<Longrightarrow> 0 \<le> count j"
    and tot: "sum_list (map count ?js) \<le> 2 ^ 53"
    by (simp_all add: exactCounts_def)
  have "sum_list (map link_value (filter (\<lambda>l. source l = k) (links (buildGraph js m)))) =
      flowBy (\<lambda>s' t'. s' = k) (links (buildGraph js m))"
    by (simp add: flowBy_def)
  also have "\<dots> = (\<Sum>j\<leftarrow>?js. journeyFlow (\<lambda>s' t'. s' = k) j)"
    by (rule flowBy_buildGraph [OF assms])
  also have "\<dots> \<le> sum_list (map count ?js)"
    by (rule sum_list_mono) (rule journeyFlow_source_bounds, rule c)
  finally show "sum_list (map link_value (filter (\<lambda>l. source l = k) (links (buildGraph js m))))
      \<le> 2 ^ 53"
    using tot by simp
  have "sum_list (map link_value (filter (\<lambda>l. target l = k) (links (buildGraph js m)))) =
      flowBy (\<lambda>s' t'. t' = k) (links (buildGraph js m))"
    by (simp add: flowBy_def)
  also have "\<dots> = (\<Sum>j\<leftarrow>?js. journeyFlow (\<lambda>s' t'. t' = k) j)"
    by (rule flowBy_buildGraph [OF assms])
  also have "\<dots> \<le> sum_list (map count ?js)"
    by (rule sum_list_mono) (rule journeyFlow_target_bounds, rule c)
  finally show "sum_list (map link_value (filter (\<lambda>l. target l = k) (links (buildGraph js m))))
      \<le> 2 ^ 53"
    using tot by simp
qed

text \<open>
  C1 as stated fails for large counts, because the code adds the counts as doubles. Two
  considered journeys with the transition from \<^verbatim>\<open>/a\<close> to \<^verbatim>\<open>/b\<close> and the counts \<open>2^53\<close> and
  1 give one link from \<^verbatim>\<open>0_/a\<close> to \<^verbatim>\<open>1_/b\<close>; its value is \<open>2^53\<close>, and the two counts add up
  to \<open>2^53 + 1\<close>.
\<close>

theorem build_link_value_rounded:
  "links (buildGraph repeatedJourneys 2) =
     [newLink (stepKey 0 ''/a'') (stepKey 1 ''/b'') 9007199254740992] \<and>
   transitionFlow (slice0 repeatedJourneys 2) 0 ''/a'' ''/b'' = 9007199254740993"
  by code_simp

text \<open>
  C1, amended. After the build no two links have the same ordered pair of source and
  target; every link goes from the key of a label at a layer to the key of a label at the
  next layer; when no considered journey has a negative count and the counts of the
  considered journeys add up to at most \<open>2^53\<close>, the value of the link is the sum of the
  counts of the considered journeys whose path has that transition at that layer boundary;
  and every transition of a considered journey has its link.
\<close>

theorem build_links_unique_and_summed_exactly:
  "distinct (map (\<lambda>l. (source l, target l)) (links (buildGraph journeys maxJourneys))) \<and>
   (\<forall>l \<in> set (links (buildGraph journeys maxJourneys)).
      \<exists>i a b. source l = stepKey i a \<and> target l = stepKey (i + 1) b \<and>
        ((\<forall>j \<in> set (slice0 journeys maxJourneys). 0 \<le> count j) \<and>
         (\<Sum>j\<leftarrow>slice0 journeys maxJourneys. count j) \<le> 2 ^ 53 \<longrightarrow>
         link_value l = transitionFlow (slice0 journeys maxJourneys) i a b)) \<and>
   (\<forall>j \<in> set (slice0 journeys maxJourneys). \<forall>i. i + 1 < length (path j) \<longrightarrow>
      (\<exists>l \<in> set (links (buildGraph journeys maxJourneys)).
         source l = stepKey i (path j ! i) \<and> target l = stepKey (i + 1) (path j ! (i + 1))))"
proof (intro conjI ballI allI impI)
  show "distinct (map (\<lambda>l. (source l, target l)) (links (buildGraph journeys maxJourneys)))"
    using distinct_links_buildGraph [of journeys maxJourneys] by (simp add: linkKey_def [abs_def])
next
  fix l assume l: "l \<in> set (links (buildGraph journeys maxJourneys))"
  then have "linkKey l \<in> linkKey ` set (links (buildGraph journeys maxJourneys))" by simp
  then obtain i a b where k: "source l = stepKey i a" "target l = stepKey (Suc i) b"
    unfolding linkKeys_buildGraph linkKey_def by blast
  have "link_value l = transitionFlow (slice0 journeys maxJourneys) i a b"
    if "(\<forall>j \<in> set (slice0 journeys maxJourneys). 0 \<le> count j) \<and>
         (\<Sum>j\<leftarrow>slice0 journeys maxJourneys. count j) \<le> 2 ^ 53"
    using that link_value_buildGraph [OF _ l k] by (simp add: exactCounts_def)
  with k have "source l = stepKey i a \<and> target l = stepKey (i + 1) b \<and>
        ((\<forall>j \<in> set (slice0 journeys maxJourneys). 0 \<le> count j) \<and>
         (\<Sum>j\<leftarrow>slice0 journeys maxJourneys. count j) \<le> 2 ^ 53 \<longrightarrow>
         link_value l = transitionFlow (slice0 journeys maxJourneys) i a b)"
    by simp
  then show "\<exists>i a b. source l = stepKey i a \<and> target l = stepKey (i + 1) b \<and>
        ((\<forall>j \<in> set (slice0 journeys maxJourneys). 0 \<le> count j) \<and>
         (\<Sum>j\<leftarrow>slice0 journeys maxJourneys. count j) \<le> 2 ^ 53 \<longrightarrow>
         link_value l = transitionFlow (slice0 journeys maxJourneys) i a b)"
    by blast
next
  fix j :: journey and i
  assume "j \<in> set (slice0 journeys maxJourneys)" "i + 1 < length (path j)"
  then have "(stepKey i (path j ! i), stepKey (i + 1) (path j ! (i + 1)))
      \<in> linkKey ` set (links (buildGraph journeys maxJourneys))"
    unfolding linkKeys_buildGraph by auto
  then show "\<exists>l \<in> set (links (buildGraph journeys maxJourneys)).
         source l = stepKey i (path j ! i) \<and> target l = stepKey (i + 1) (path j ! (i + 1))"
    by (auto simp: linkKey_def)
qed

lemma buildGraph_example:
  "buildGraph exampleJourneys 3 =
     \<lparr>nodes = [newNode ''0_/a'' ''/a'' 0, newNode ''1_/b'' ''/b'' 1,
               newNode ''1_/c'' ''/c'' 1, newNode ''2_/d'' ''/d'' 2],
      links = [newLink ''0_/a'' ''1_/b'' 7, newLink ''0_/a'' ''1_/c'' 3,
               newLink ''1_/b'' ''2_/d'' 2]\<rparr>"
  by code_simp

lemma exactCounts_example:
  "(\<forall>j \<in> set (slice0 exampleJourneys 3). 0 \<le> count j) \<and>
   (\<Sum>j\<leftarrow>slice0 exampleJourneys 3. count j) \<le> 2 ^ 53"
  by (simp add: slice0_def exampleJourneys_def)

theorem build_links_summed_witness:
  "newLink ''0_/a'' ''1_/b'' 7 \<in> set (links (buildGraph exampleJourneys 3)) \<and>
   list_all (\<lambda>j. 0 \<le> count j) (slice0 exampleJourneys 3) \<and>
   (\<Sum>j\<leftarrow>slice0 exampleJourneys 3. count j) \<le> 2 ^ 53 \<and>
   (\<exists>i a b. ''0_/a'' = stepKey i a \<and> ''1_/b'' = stepKey (i + 1) b \<and>
      7 = transitionFlow (slice0 exampleJourneys 3) i a b) \<and>
   (\<exists>l \<in> set (links (buildGraph exampleJourneys 3)).
      source l = stepKey 1 ''/b'' \<and> target l = stepKey 2 ''/d'')"
proof -
  let ?j = "\<lparr>path = [''/a'', ''/b'', ''/d''], count = 2, percentage = 20\<rparr>"
  let ?l = "newLink ''0_/a'' ''1_/b'' 7"
  have m: "?l \<in> set (links (buildGraph exampleJourneys 3))"
    by (simp add: buildGraph_example)
  have j: "?j \<in> set (slice0 exampleJourneys 3)"
    by (simp add: slice0_def exampleJourneys_def)
  have p: "(1::nat) + 1 < length (path ?j)" by simp
  note e = exactCounts_example
  from build_links_unique_and_summed_exactly [of exampleJourneys 3]
  have a: "\<exists>i a b. source ?l = stepKey i a \<and> target ?l = stepKey (i + 1) b \<and>
        link_value ?l = transitionFlow (slice0 exampleJourneys 3) i a b"
    and b: "\<exists>l \<in> set (links (buildGraph exampleJourneys 3)).
         source l = stepKey 1 (path ?j ! 1) \<and> target l = stepKey (1 + 1) (path ?j ! (1 + 1))"
    using m j p e by blast+
  from b have "\<exists>l \<in> set (links (buildGraph exampleJourneys 3)).
      source l = stepKey 1 ''/b'' \<and> target l = stepKey 2 ''/d''"
    by (simp add: numeral_2_eq_2)
  with a m e show ?thesis by (simp add: newLink_def list_all_iff)
qed

section \<open>Nodes after the build\<close>

lemma nodesOk_distinct_keys: "nodesOk ns \<Longrightarrow> distinct (map nodeKey ns)"
proof (induction ns)
  case Nil
  then show ?case by simp
next
  case (Cons x xs)
  from Cons.prems have ok: "nodesOk xs" by (simp add: nodesOk_def)
  have "nodeKey x \<notin> nodeKey ` set xs"
  proof
    assume "nodeKey x \<in> nodeKey ` set xs"
    then obtain y where y: "y \<in> set xs" "nodeKey y = nodeKey x" by auto
    with Cons.prems have "node_id y = node_id x" by (simp add: nodesOk_def nodeKey_def)
    with y(1) Cons.prems show False by (force simp: nodesOk_def)
  qed
  with Cons.IH [OF ok] show ?case by simp
qed

lemma find_node_None: "find (\<lambda>n. node_id n = k) ns = None \<longleftrightarrow> k \<notin> node_id ` set ns"
  by (induction ns) auto

lemma nodesOk_addNode: "nodesOk ns \<Longrightarrow> nodesOk (addNode i s ns)"
  by (auto simp: nodesOk_def addNode_def newNode_def find_node_None split: option.splits)

lemma nodeKeys_addNode:
  assumes "nodesOk ns"
  shows "nodeKey ` set (addNode i s ns) = insert (i, s) (nodeKey ` set ns)"
proof (cases "find (\<lambda>n. node_id n = stepKey i s) ns")
  case None
  then show ?thesis by (simp add: addNode_def newNode_def nodeKey_def)
next
  case (Some n)
  then have "n \<in> set ns" "node_id n = stepKey i s" by (auto dest: find_Some_mem)
  with assms have "nodeKey n = (i, s)" by (auto simp: nodesOk_def nodeKey_def)
  with \<open>n \<in> set ns\<close> have "(i, s) \<in> nodeKey ` set ns" by (metis imageI)
  with Some show ?thesis by (auto simp: addNode_def)
qed

lemma nodesOk_walk: "nodesOk (nodes g) \<Longrightarrow> nodesOk (nodes (fold (visitStep j) [0..<k] g))"
  by (induction k) (auto simp: nodesOk_addNode)

lemma nodeKeys_walk:
  "nodesOk (nodes g) \<Longrightarrow>
   nodeKey ` set (nodes (fold (visitStep j) [0..<k] g)) =
     nodeKey ` set (nodes g) \<union> {(i, path j ! i) | i. i < k}"
proof (induction k)
  case 0
  then show ?case by simp
next
  case (Suc k)
  then show ?case
    using nodeKeys_addNode [OF nodesOk_walk [OF Suc.prems, of j k]]
    by (auto simp: less_Suc_eq)
qed

lemma nodesOk_addJourney: "nodesOk (nodes g) \<Longrightarrow> nodesOk (nodes (addJourney j g))"
  by (simp add: addJourney_def nodesOk_walk)

lemma nodeKeys_addJourney:
  "nodesOk (nodes g) \<Longrightarrow>
   nodeKey ` set (nodes (addJourney j g)) =
     nodeKey ` set (nodes g) \<union> {(i, path j ! i) | i. i < length (path j)}"
  by (simp add: addJourney_def nodeKeys_walk)

lemma nodesOk_fold: "nodesOk (nodes g) \<Longrightarrow> nodesOk (nodes (fold addJourney js g))"
  by (induction js arbitrary: g) (auto simp: nodesOk_addJourney)

lemma nodeKeys_fold:
  "nodesOk (nodes g) \<Longrightarrow>
   nodeKey ` set (nodes (fold addJourney js g)) =
     nodeKey ` set (nodes g) \<union> {(i, path j ! i) | i j. j \<in> set js \<and> i < length (path j)}"
proof (induction js arbitrary: g)
  case Nil
  then show ?case by simp
next
  case (Cons j js)
  from Cons.IH [OF nodesOk_addJourney [OF Cons.prems, of j]] nodeKeys_addJourney [OF Cons.prems, of j]
  show ?case by auto
qed

lemma nodesOk_buildGraph: "nodesOk (nodes (buildGraph js m))"
  unfolding buildGraph_def by (rule nodesOk_fold) (simp add: emptyGraph_def nodesOk_def)

lemma nodeKeys_buildGraph:
  "nodeKey ` set (nodes (buildGraph js m)) =
     {(i, path j ! i) | i j. j \<in> set (slice0 js m) \<and> i < length (path j)}"
  using nodeKeys_fold [of emptyGraph "slice0 js m"]
  by (simp add: buildGraph_def emptyGraph_def nodesOk_def)

lemma node_of_key:
  assumes "(i, a) \<in> nodeKey ` set (nodes (buildGraph js m))"
  shows "\<exists>n \<in> set (nodes (buildGraph js m)). node_id n = stepKey i a \<and> step n = i \<and> node_name n = a"
proof -
  from assms obtain n where n: "n \<in> set (nodes (buildGraph js m))" "nodeKey n = (i, a)" by auto
  with nodesOk_buildGraph [of js m] have "node_id n = stepKey i a"
    by (auto simp: nodesOk_def nodeKey_def)
  with n show ?thesis by (auto simp: nodeKey_def)
qed

lemma link_ends_buildGraph:
  assumes "l \<in> set (links (buildGraph js m))"
  shows "\<exists>s \<in> set (nodes (buildGraph js m)). \<exists>t \<in> set (nodes (buildGraph js m)).
           node_id s = source l \<and> node_id t = target l \<and> step t = Suc (step s)"
proof -
  from assms have "linkKey l \<in> linkKey ` set (links (buildGraph js m))" by simp
  then obtain i j where j: "j \<in> set (slice0 js m)" "Suc i < length (path j)"
    and l: "source l = stepKey i (path j ! i)" "target l = stepKey (Suc i) (path j ! Suc i)"
    unfolding linkKeys_buildGraph linkKey_def by blast
  from j have "(i, path j ! i) \<in> nodeKey ` set (nodes (buildGraph js m))"
    "(Suc i, path j ! Suc i) \<in> nodeKey ` set (nodes (buildGraph js m))"
    unfolding nodeKeys_buildGraph by (auto intro: Suc_lessD)
  from node_of_key [OF this(1)] node_of_key [OF this(2)] l show ?thesis
    by (metis)
qed

text \<open>
  C6. After the build the nodes have pairwise different ids and pairwise different pairs
  of layer index and label; the pairs that have a node are exactly the pairs of a position
  and the label at that position in a considered journey (so the same label at two layers
  gives two nodes); and every link goes from a node at some layer to a node at the next
  layer.
\<close>

theorem build_one_node_per_layer_label:
  "distinct (map node_id (nodes (buildGraph journeys maxJourneys))) \<and>
   distinct (map (\<lambda>n. (step n, node_name n)) (nodes (buildGraph journeys maxJourneys))) \<and>
   (\<lambda>n. (step n, node_name n)) ` set (nodes (buildGraph journeys maxJourneys)) =
     {(i, path j ! i) | i j. j \<in> set (slice0 journeys maxJourneys) \<and> i < length (path j)} \<and>
   (\<forall>l \<in> set (links (buildGraph journeys maxJourneys)).
      \<exists>s \<in> set (nodes (buildGraph journeys maxJourneys)).
      \<exists>t \<in> set (nodes (buildGraph journeys maxJourneys)).
        node_id s = source l \<and> node_id t = target l \<and> step t = step s + 1)"
proof (intro conjI ballI)
  show "distinct (map node_id (nodes (buildGraph journeys maxJourneys)))"
    using nodesOk_buildGraph [of journeys maxJourneys] by (simp add: nodesOk_def)
  show "distinct (map (\<lambda>n. (step n, node_name n)) (nodes (buildGraph journeys maxJourneys)))"
    using nodesOk_distinct_keys [OF nodesOk_buildGraph [of journeys maxJourneys]]
    by (simp add: nodeKey_def [abs_def])
  show "(\<lambda>n. (step n, node_name n)) ` set (nodes (buildGraph journeys maxJourneys)) =
     {(i, path j ! i) | i j. j \<in> set (slice0 journeys maxJourneys) \<and> i < length (path j)}"
    using nodeKeys_buildGraph [of journeys maxJourneys] by (simp add: nodeKey_def [abs_def])
next
  fix l assume "l \<in> set (links (buildGraph journeys maxJourneys))"
  from link_ends_buildGraph [OF this]
  show "\<exists>s \<in> set (nodes (buildGraph journeys maxJourneys)).
      \<exists>t \<in> set (nodes (buildGraph journeys maxJourneys)).
        node_id s = source l \<and> node_id t = target l \<and> step t = step s + 1"
    by simp
qed


theorem build_one_node_witness:
  "newLink ''0_/a'' ''1_/b'' 7 \<in> set (links (buildGraph exampleJourneys 3)) \<and>
   (\<exists>s \<in> set (nodes (buildGraph exampleJourneys 3)).
    \<exists>t \<in> set (nodes (buildGraph exampleJourneys 3)).
      node_id s = ''0_/a'' \<and> node_id t = ''1_/b'' \<and> step t = step s + 1)"
proof -
  have m: "newLink ''0_/a'' ''1_/b'' 7 \<in> set (links (buildGraph exampleJourneys 3))"
    by (simp add: buildGraph_example)
  from build_one_node_per_layer_label [of exampleJourneys 3] m
  have "\<exists>s \<in> set (nodes (buildGraph exampleJourneys 3)).
    \<exists>t \<in> set (nodes (buildGraph exampleJourneys 3)).
      node_id s = source (newLink ''0_/a'' ''1_/b'' 7) \<and>
      node_id t = target (newLink ''0_/a'' ''1_/b'' 7) \<and> step t = step s + 1"
    by blast
  with m show ?thesis by (simp add: newLink_def)
qed

section \<open>Incoming and outgoing links, node positions\<close>

lemma tracked_Nil [simp]: "tracked ls [] n = n"
  by (simp add: tracked_def)

lemma node_id_tracked [simp]: "node_id (tracked ls rs n) = node_id n"
  by (simp add: tracked_def)

lemma tracked_Cons: "tracked ls rs (tracked ls [r] n) = tracked ls (r # rs) n"
  by (simp add: tracked_def)

lemma trackLink_distinct:
  assumes "distinct (map node_id ns)"
  shows "trackLink ls r ns = map (tracked ls [r]) ns"
proof -
  let ?out = "\<lambda>n. n\<lparr>outgoingLinks := outgoingLinks n @ [r]\<rparr>"
  let ?inc = "\<lambda>n. n\<lparr>incomingLinks := incomingLinks n @ [r]\<rparr>"
  have 1: "modifyFirst (\<lambda>n. node_id n = source (ls ! r)) ?out ns
      = map (\<lambda>n. if node_id n = source (ls ! r) then ?out n else n) ns"
    using assms by (rule modifyFirst_distinct) simp
  have d: "distinct (map node_id (map (\<lambda>n. if node_id n = source (ls ! r) then ?out n else n) ns))"
    using assms by (simp add: comp_def if_distrib [of node_id] cong: if_cong)
  have 2: "modifyFirst (\<lambda>n. node_id n = target (ls ! r)) ?inc
        (map (\<lambda>n. if node_id n = source (ls ! r) then ?out n else n) ns)
      = map (\<lambda>n. if node_id n = target (ls ! r) then ?inc n else n)
         (map (\<lambda>n. if node_id n = source (ls ! r) then ?out n else n) ns)"
    using d by (rule modifyFirst_distinct) simp
  show ?thesis
    unfolding trackLink_def Let_def 1 2 by (auto simp: tracked_def)
qed

lemma fold_trackLink:
  "distinct (map node_id ns) \<Longrightarrow> fold (trackLink ls) rs ns = map (tracked ls rs) ns"
proof (induction rs arbitrary: ns)
  case Nil
  then show ?case by simp
next
  case (Cons r rs)
  have "distinct (map node_id (map (tracked ls [r]) ns))"
    using Cons.prems by (simp add: comp_def)
  from Cons.IH [OF this] Cons.prems show ?case
    by (simp add: trackLink_distinct comp_def tracked_Cons)
qed

lemma links_trackLinks [simp]: "links (trackLinks g) = links g"
  by (simp add: trackLinks_def)

lemma nodes_trackLinks:
  "distinct (map node_id (nodes g)) \<Longrightarrow>
   nodes (trackLinks g) = map (tracked (links g) [0..<length (links g)]) (nodes g)"
  by (simp add: trackLinks_def fold_trackLink)


lemma stripY_update [simp]: "stripY (n\<lparr>node_y := y\<rparr>) = stripY n"
  by (simp add: stripY_def)

lemma stripY_fields:
  assumes "stripY a = stripY b"
  shows "node_id a = node_id b" "node_name a = node_name b" "step a = step b"
    "incomingLinks a = incomingLinks b" "outgoingLinks a = outgoingLinks b"
    "height a = height b" "node_count a = node_count b" "node_percentage a = node_percentage b"
proof -
  have "node_id (stripY a) = node_id (stripY b)" "node_name (stripY a) = node_name (stripY b)"
    "step (stripY a) = step (stripY b)" "incomingLinks (stripY a) = incomingLinks (stripY b)"
    "outgoingLinks (stripY a) = outgoingLinks (stripY b)" "height (stripY a) = height (stripY b)"
    "node_count (stripY a) = node_count (stripY b)"
    "node_percentage (stripY a) = node_percentage (stripY b)"
    using assms by simp_all
  then show "node_id a = node_id b" "node_name a = node_name b" "step a = step b"
    "incomingLinks a = incomingLinks b" "outgoingLinks a = outgoingLinks b"
    "height a = height b" "node_count a = node_count b" "node_percentage a = node_percentage b"
    by (simp_all add: stripY_def)
qed

lemma map_update_frame: "f x = f (xs ! k) \<Longrightarrow> map f (xs[k := x]) = map f xs"
  by (induction xs arbitrary: k) (auto simp: nth_Cons split: nat.splits)

lemma nth_update_frame: "f x = f (xs ! k) \<Longrightarrow> f (xs[k := x] ! r) = f (xs ! r)"
  by (induction xs arbitrary: k r) (auto simp: nth_Cons split: nat.splits)

lemma stackColumn_frame: "map stripY (stackColumn c ks ns) = map stripY ns"
proof (induction ks arbitrary: c ns)
  case Nil
  then show ?case by simp
next
  case (Cons k ks)
  have "map stripY (ns[k := (ns ! k)\<lparr>node_y := y\<rparr>]) = map stripY ns" for y
    by (rule map_update_frame) simp
  with Cons show ?case by (simp add: Let_def)
qed


lemma length_stackColumn [simp]: "length (stackColumn c ks ns) = length ns"
  using arg_cong [OF stackColumn_frame [of c ks ns], of length] by simp

lemma hasY_update [simp]: "hasY (n\<lparr>node_y := Some y\<rparr>)"
  by (simp add: hasY_def)

lemma members_simps [simp]: "members [] = {}" "members ((s, ks) # gs) = set ks \<union> members gs"
  by (simp_all add: members_def)

lemma stackColumn_keeps_y:
  "hasY (ns ! r) \<Longrightarrow> r < length ns \<Longrightarrow> hasY (stackColumn c ks ns ! r)"
proof (induction ks arbitrary: c ns)
  case Nil
  then show ?case by simp
next
  case (Cons k ks)
  let ?ns = "ns[k := (ns ! k)\<lparr>node_y := Some (c + the (height (ns ! k)) / 2)\<rparr>]"
  from Cons.prems have "hasY (?ns ! r)" "r < length ?ns"
    by (cases "r = k"; simp)+
  from Cons.IH [OF this] show ?case by (simp add: Let_def)
qed

lemma stackColumn_sets_y:
  "k \<in> set ks \<Longrightarrow> k < length ns \<Longrightarrow> hasY (stackColumn c ks ns ! k)"
proof (induction ks arbitrary: c ns)
  case Nil
  then show ?case by simp
next
  case (Cons a ks)
  let ?ns = "ns[a := (ns ! a)\<lparr>node_y := Some (c + the (height (ns ! a)) / 2)\<rparr>]"
  show ?case
  proof (cases "k = a")
    case True
    with Cons.prems have "hasY (?ns ! k)" "k < length ?ns" by auto
    from stackColumn_keeps_y [OF this] show ?thesis by (simp add: Let_def True)
  next
    case False
    with Cons.prems have "k \<in> set ks" "k < length ?ns" by auto
    from Cons.IH [OF this] show ?thesis by (simp add: Let_def)
  qed
qed

lemma fold_stackColumn_frame:
  "map stripY (fold (\<lambda>(s, stepNodes) ns. stackColumn 0 stepNodes ns) gs ns) = map stripY ns"
  by (induction gs arbitrary: ns) (auto simp: stackColumn_frame)

lemma fold_stackColumn_keeps_y:
  "hasY (ns ! r) \<Longrightarrow> r < length ns \<Longrightarrow>
   hasY (fold (\<lambda>(s, stepNodes) ns. stackColumn 0 stepNodes ns) gs ns ! r)"
  by (induction gs arbitrary: ns) (auto simp: stackColumn_keeps_y)

lemma fold_stackColumn_sets_y:
  "k \<in> members gs \<Longrightarrow> k < length ns \<Longrightarrow>
   hasY (fold (\<lambda>(s, stepNodes) ns. stackColumn 0 stepNodes ns) gs ns ! k)"
proof (induction gs arbitrary: ns)
  case Nil
  then show ?case by simp
next
  case (Cons g gs)
  obtain s ks where g: "g = (s, ks)" by (cases g)
  show ?case
  proof (cases "k \<in> set ks")
    case True
    with Cons.prems have "hasY (stackColumn 0 ks ns ! k)"
      by (simp add: stackColumn_sets_y)
    then show ?thesis using Cons.prems by (simp add: g fold_stackColumn_keeps_y)
  next
    case False
    with Cons.prems g have "k \<in> members gs" by auto
    from Cons.IH [OF this, of "stackColumn 0 ks ns"] Cons.prems show ?thesis by (simp add: g)
  qed
qed

lemma groupInsert_members: "members (groupInsert s k gs) = insert k (members gs)"
  by (induction gs) (auto split: if_splits)

lemma nodesByStep_members: "members (nodesByStep ns) = {0..<length ns}"
proof -
  have "members (fold (\<lambda>k gs. groupInsert (step (ns ! k)) k gs) [0..<m] []) = {0..<m}" for m
    by (induction m) (simp_all add: groupInsert_members atLeast0_lessThan_Suc)
  then show ?thesis by (simp add: nodesByStep_def)
qed

lemma links_positionNodes [simp]: "links (positionNodes byStep g) = links g"
  by (simp add: positionNodes_def)

lemma positionNodes_frame: "map stripY (nodes (positionNodes byStep g)) = map stripY (nodes g)"
  by (simp add: positionNodes_def fold_stackColumn_frame)

lemma positionNodes_sets_y:
  assumes "length ns = length (nodes g)" and "n \<in> set (nodes (positionNodes (nodesByStep ns) g))"
  shows "hasY n"
proof -
  let ?ns = "nodes (positionNodes (nodesByStep ns) g)"
  have len: "length ?ns = length (nodes g)"
    using arg_cong [OF positionNodes_frame [of "nodesByStep ns" g], of length] by simp
  from assms(2) obtain k where k: "k < length ?ns" "n = ?ns ! k" by (auto simp: in_set_conv_nth)
  with len assms(1) have "k \<in> members (nodesByStep ns)"
    by (simp add: nodesByStep_members)
  from fold_stackColumn_sets_y [OF this, of "nodes g"] k len show ?thesis
    by (simp add: positionNodes_def)
qed

section \<open>Stacking the links of a node\<close>

lemma length_stackOutgoing [simp]: "length (stackOutgoing scale c rs ls) = length ls"
  by (induction rs arbitrary: c ls) (auto simp: Let_def)

lemma length_stackIncoming [simp]: "length (stackIncoming scale c rs ls) = length ls"
  by (induction rs arbitrary: c ls) (auto simp: Let_def)

lemma stackOutgoing_frame:
  "(\<And>l y. f (l\<lparr>sourceY := y\<rparr>) = f l) \<Longrightarrow> f (stackOutgoing scale c rs ls ! r) = f (ls ! r)"
proof (induction rs arbitrary: c ls)
  case Nil
  then show ?case by simp
next
  case (Cons a rs)
  show ?case
    by (simp add: Let_def Cons.IH [OF Cons.prems] nth_update_frame [of f] Cons.prems)
qed

lemma stackIncoming_frame:
  "(\<And>l y. f (l\<lparr>targetY := y\<rparr>) = f l) \<Longrightarrow> f (stackIncoming scale c rs ls ! r) = f (ls ! r)"
proof (induction rs arbitrary: c ls)
  case Nil
  then show ?case by simp
next
  case (Cons a rs)
  show ?case
    by (simp add: Let_def Cons.IH [OF Cons.prems] nth_update_frame [of f] Cons.prems)
qed

lemma stackOutgoing_other: "r \<notin> set rs \<Longrightarrow> stackOutgoing scale c rs ls ! r = ls ! r"
  by (induction rs arbitrary: c ls) (auto simp: Let_def)

lemma stackIncoming_other: "r \<notin> set rs \<Longrightarrow> stackIncoming scale c rs ls ! r = ls ! r"
  by (induction rs arbitrary: c ls) (auto simp: Let_def)

lemma anchor_0: "anchor scale ls startY (r # rs) 0 = startY + scale (link_value (ls ! r)) / 2"
  by (simp add: anchor_def)

lemma anchor_Suc:
  "anchor scale ls startY (r # rs) (Suc i) = anchor scale ls (startY + scale (link_value (ls ! r))) rs i"
  by (simp add: anchor_def)

lemma anchor_cong:
  "(\<And>r. link_value (ls ! r) = link_value (ls' ! r)) \<Longrightarrow> anchor scale ls = anchor scale ls'"
  by (simp add: anchor_def [abs_def])

lemma stackOutgoing_effect:
  "distinct rs \<Longrightarrow> \<forall>r \<in> set rs. r < length ls \<Longrightarrow> i < length rs \<Longrightarrow>
   sourceY (stackOutgoing scale c rs ls ! (rs ! i)) = Some (anchor scale ls c rs i)"
proof (induction rs arbitrary: c ls i)
  case Nil
  then show ?case by simp
next
  case (Cons a rs)
  let ?h = "scale (link_value (ls ! a))"
  let ?ls = "ls[a := (ls ! a)\<lparr>sourceY := Some (c + ?h / 2)\<rparr>]"
  have v: "link_value (?ls ! r) = link_value (ls ! r)" for r
    by (rule nth_update_frame) simp
  show ?case
  proof (cases i)
    case 0
    from Cons.prems have "a \<notin> set rs" "a < length ls" by auto
    then show ?thesis
      by (simp add: 0 Let_def stackOutgoing_other anchor_0)
  next
    case (Suc i')
    from Cons.prems Suc have "distinct rs" "\<forall>r \<in> set rs. r < length ?ls" "i' < length rs"
      by auto
    from Cons.IH [OF this, of "c + ?h"] anchor_cong [of ?ls ls scale, OF v]
    show ?thesis by (simp add: Suc Let_def anchor_Suc)
  qed
qed

lemma stackIncoming_effect:
  "distinct rs \<Longrightarrow> \<forall>r \<in> set rs. r < length ls \<Longrightarrow> i < length rs \<Longrightarrow>
   targetY (stackIncoming scale c rs ls ! (rs ! i)) = Some (anchor scale ls c rs i)"
proof (induction rs arbitrary: c ls i)
  case Nil
  then show ?case by simp
next
  case (Cons a rs)
  let ?h = "scale (link_value (ls ! a))"
  let ?ls = "ls[a := (ls ! a)\<lparr>targetY := Some (c + ?h / 2)\<rparr>]"
  have v: "link_value (?ls ! r) = link_value (ls ! r)" for r
    by (rule nth_update_frame) simp
  show ?case
  proof (cases i)
    case 0
    from Cons.prems have "a \<notin> set rs" "a < length ls" by auto
    then show ?thesis
      by (simp add: 0 Let_def stackIncoming_other anchor_0)
  next
    case (Suc i')
    from Cons.prems Suc have "distinct rs" "\<forall>r \<in> set rs. r < length ?ls" "i' < length rs"
      by auto
    from Cons.IH [OF this, of "c + ?h"] anchor_cong [of ?ls ls scale, OF v]
    show ?thesis by (simp add: Suc Let_def anchor_Suc)
  qed
qed


lemma set_sortByValue [simp]: "set (sortByValue ls rs) = set rs"
  by (simp add: sortByValue_def)

lemma length_sortByValue [simp]: "length (sortByValue ls rs) = length rs"
  by (simp add: sortByValue_def)

lemma distinct_sortByValue [simp]: "distinct (sortByValue ls rs) = distinct rs"
  by (simp add: sortByValue_def)

lemma sortByValue_cong:
  "(\<And>r. linkCore (ls' ! r) = linkCore (ls ! r)) \<Longrightarrow> sortByValue ls' = sortByValue ls"
proof -
  assume "\<And>r. linkCore (ls' ! r) = linkCore (ls ! r)"
  then have "(\<lambda>r. - link_value (ls' ! r)) = (\<lambda>r. - link_value (ls ! r))"
    by (auto simp: linkCore_def)
  then show ?thesis by (simp add: sortByValue_def [abs_def])
qed

lemma wired_outgoing:
  "wired ns ls \<Longrightarrow> n \<in> set ns \<Longrightarrow>
   distinct (outgoingLinks n) \<and> set (outgoingLinks n) = {r. r < length ls \<and> source (ls ! r) = node_id n}"
  by (auto simp: wired_def outgoingOf_def)

lemma wired_incoming:
  "wired ns ls \<Longrightarrow> n \<in> set ns \<Longrightarrow>
   distinct (incomingLinks n) \<and> set (incomingLinks n) = {r. r < length ls \<and> target (ls ! r) = node_id n}"
  by (auto simp: wired_def incomingOf_def)

lemma wired_ids: "wired ns ls \<Longrightarrow> m < k \<Longrightarrow> k < length ns \<Longrightarrow> node_id (ns ! m) \<noteq> node_id (ns ! k)"
  by (auto simp: wired_def distinct_conv_nth)

lemma update_processed:
  "k < length ns \<Longrightarrow>
   (map f (take k ns) @ drop k ns)[k := f (ns ! k)] = map f (take (Suc k) ns) @ drop (Suc k) ns"
  by (simp add: take_Suc_conv_app_nth list_update_append Cons_nth_drop_Suc [symmetric])

lemma nodeTop_sortedNode [simp]: "nodeTop (sortedNode ls n) = nodeTop n"
  by (simp add: nodeTop_def sortedNode_def)

lemma laidOut_step:
  assumes inv: "laidOut scale ns ls k g" and k: "k < length ns" and w: "wired ns ls"
  shows "laidOut scale ns ls (Suc k) (layoutNode scale k g)"
proof -
  let ?n = "ns ! k"
  let ?out = "sortByValue ls (outgoingLinks ?n)"
  let ?inc = "sortByValue ls (incomingLinks ?n)"
  let ?ls1 = "stackOutgoing scale (nodeTop ?n) ?out (links g)"
  let ?ls2 = "stackIncoming scale (nodeTop ?n) ?inc ?ls1"
  from inv have ng: "nodes g = map (sortedNode ls) (take k ns) @ drop k ns"
    and len: "length (links g) = length ls"
    and core: "\<And>r. linkCore (links g ! r) = linkCore (ls ! r)"
    and src: "\<And>m i. m < k \<Longrightarrow> i < length (outgoingLinks (ns ! m)) \<Longrightarrow>
        sourceY (links g ! (sortByValue ls (outgoingLinks (ns ! m)) ! i)) =
          Some (anchor scale ls (nodeTop (ns ! m)) (sortByValue ls (outgoingLinks (ns ! m))) i)"
    and tgt: "\<And>m i. m < k \<Longrightarrow> i < length (incomingLinks (ns ! m)) \<Longrightarrow>
        targetY (links g ! (sortByValue ls (incomingLinks (ns ! m)) ! i)) =
          Some (anchor scale ls (nodeTop (ns ! m)) (sortByValue ls (incomingLinks (ns ! m))) i)"
    by (simp_all add: laidOut_def)
  from ng k have nk: "nodes g ! k = ?n" by (simp add: nth_append)
  have sortg: "sortByValue (links g) = sortByValue ls" by (rule sortByValue_cong) (rule core)
  have eq: "layoutNode scale k g = \<lparr>nodes = (nodes g)[k := sortedNode ls ?n], links = ?ls2\<rparr>"
    by (simp add: layoutNode_def Let_def nk sortg sortedNode_def)
  from k have mem: "?n \<in> set ns" by simp
  note wo = wired_outgoing [OF w mem] and wi = wired_incoming [OF w mem]
  have vg: "link_value (links g ! r) = link_value (ls ! r)" for r
    using core [of r] by (simp add: linkCore_def)
  have core1: "linkCore (?ls1 ! r) = linkCore (links g ! r)" for r
    by (rule stackOutgoing_frame) (simp add: linkCore_def)
  have core2: "linkCore (?ls2 ! r) = linkCore (?ls1 ! r)" for r
    by (rule stackIncoming_frame) (simp add: linkCore_def)
  have v1: "link_value (?ls1 ! r) = link_value (ls ! r)" for r
    using core1 [of r] core [of r] by (simp add: linkCore_def)
  have 1: "nodes (layoutNode scale k g) = map (sortedNode ls) (take (Suc k) ns) @ drop (Suc k) ns"
    unfolding eq using update_processed [OF k, of "sortedNode ls"] by (simp add: ng)
  have 2: "length (links (layoutNode scale k g)) = length ls"
    by (simp add: eq len)
  have 3: "linkCore (links (layoutNode scale k g) ! r) = linkCore (ls ! r)" for r
    by (simp add: eq core2 core1 core)
  have 4: "sourceY (links (layoutNode scale k g) ! (sortByValue ls (outgoingLinks (ns ! m)) ! i)) =
          Some (anchor scale ls (nodeTop (ns ! m)) (sortByValue ls (outgoingLinks (ns ! m))) i)"
    if m: "m < Suc k" and i: "i < length (outgoingLinks (ns ! m))" for m i
  proof -
    let ?r = "sortByValue ls (outgoingLinks (ns ! m)) ! i"
    have s2: "sourceY (?ls2 ! ?r) = sourceY (?ls1 ! ?r)"
      by (rule stackIncoming_frame) simp
    show ?thesis
    proof (cases "m = k")
      case True
      from wo have "distinct ?out" "\<forall>r \<in> set ?out. r < length (links g)"
        by (auto simp: len)
      from stackOutgoing_effect [OF this, of i scale "nodeTop ?n"] i
      have "sourceY (?ls1 ! (?out ! i)) = Some (anchor scale (links g) (nodeTop ?n) ?out i)"
        by (simp add: True)
      also have "anchor scale (links g) = anchor scale ls" by (rule anchor_cong) (rule vg)
      finally show ?thesis using s2 by (simp add: eq True)
    next
      case False
      with m have mk: "m < k" by simp
      with k have memm: "ns ! m \<in> set ns" by simp
      from i have "?r \<in> set (outgoingLinks (ns ! m))"
        using nth_mem [of i "sortByValue ls (outgoingLinks (ns ! m))"] by simp
      with wired_outgoing [OF w memm] have "source (ls ! ?r) = node_id (ns ! m)" by simp
      with wired_ids [OF w mk k] wo have "?r \<notin> set ?out" by auto
      then have "?ls1 ! ?r = links g ! ?r" by (rule stackOutgoing_other)
      with src [OF mk i] show ?thesis by (simp add: eq s2)
    qed
  qed
  have 5: "targetY (links (layoutNode scale k g) ! (sortByValue ls (incomingLinks (ns ! m)) ! i)) =
          Some (anchor scale ls (nodeTop (ns ! m)) (sortByValue ls (incomingLinks (ns ! m))) i)"
    if m: "m < Suc k" and i: "i < length (incomingLinks (ns ! m))" for m i
  proof -
    let ?r = "sortByValue ls (incomingLinks (ns ! m)) ! i"
    have t1: "targetY (?ls1 ! ?r) = targetY (links g ! ?r)"
      by (rule stackOutgoing_frame) simp
    show ?thesis
    proof (cases "m = k")
      case True
      from wi have "distinct ?inc" "\<forall>r \<in> set ?inc. r < length ?ls1"
        by (auto simp: len)
      from stackIncoming_effect [OF this, of i scale "nodeTop ?n"] i
      have "targetY (?ls2 ! (?inc ! i)) = Some (anchor scale ?ls1 (nodeTop ?n) ?inc i)"
        by (simp add: True)
      also have "anchor scale ?ls1 = anchor scale ls" by (rule anchor_cong) (rule v1)
      finally show ?thesis by (simp add: eq True)
    next
      case False
      with m have mk: "m < k" by simp
      with k have memm: "ns ! m \<in> set ns" by simp
      from i have "?r \<in> set (incomingLinks (ns ! m))"
        using nth_mem [of i "sortByValue ls (incomingLinks (ns ! m))"] by simp
      with wired_incoming [OF w memm] have "target (ls ! ?r) = node_id (ns ! m)" by simp
      with wired_ids [OF w mk k] wi have "?r \<notin> set ?inc" by auto
      then have "?ls2 ! ?r = ?ls1 ! ?r" by (rule stackIncoming_other)
      with tgt [OF mk i] t1 show ?thesis by (simp add: eq)
    qed
  qed
  from 1 2 3 4 5 show ?thesis unfolding laidOut_def by blast
qed

lemma laidOut_fold:
  assumes w: "wired ns ls"
  shows "k \<le> length ns \<Longrightarrow>
    laidOut scale ns ls k (fold (layoutNode scale) [0..<k] \<lparr>nodes = ns, links = ls\<rparr>)"
proof (induction k)
  case 0
  show ?case by (simp add: laidOut_def)
next
  case (Suc k)
  then have "laidOut scale ns ls k (fold (layoutNode scale) [0..<k] \<lparr>nodes = ns, links = ls\<rparr>)"
    and "k < length ns" by simp_all
  from laidOut_step [OF this w] show ?case by simp
qed

lemma laidOut_layoutLinks:
  "wired (nodes g) (links g) \<Longrightarrow> laidOut scale (nodes g) (links g) (length (nodes g)) (layoutLinks scale g)"
proof -
  assume w: "wired (nodes g) (links g)"
  have "\<lparr>nodes = nodes g, links = links g\<rparr> = g" by (cases g) simp
  with laidOut_fold [OF w, of "length (nodes g)" scale] show ?thesis
    by (simp add: layoutLinks_def)
qed

section \<open>The passes together\<close>

lemma sankey_positioned:
  "sankey js m = layoutLinks (linkWidthScale (links (buildGraph js m))) (positioned js m)"
  by (simp add: sankey_def positioned_def Let_def)

lemma fresh_addNode: "\<forall>n \<in> set ns. fresh n \<Longrightarrow> \<forall>n \<in> set (addNode i s ns). fresh n"
  by (auto simp: addNode_def fresh_def newNode_def split: option.splits)

lemma fresh_walk:
  "\<forall>n \<in> set (nodes g). fresh n \<Longrightarrow> \<forall>n \<in> set (nodes (fold (visitStep j) [0..<k] g)). fresh n"
  by (induction k) (simp_all add: fresh_addNode)

lemma fresh_addJourney:
  "\<forall>n \<in> set (nodes g). fresh n \<Longrightarrow> \<forall>n \<in> set (nodes (addJourney j g)). fresh n"
  unfolding addJourney_def by (rule fresh_walk)

lemma fresh_fold:
  "\<forall>n \<in> set (nodes g). fresh n \<Longrightarrow> \<forall>n \<in> set (nodes (fold addJourney js g)). fresh n"
proof (induction js arbitrary: g)
  case Nil
  then show ?case by simp
next
  case (Cons j js)
  from Cons.IH [OF fresh_addJourney [OF Cons.prems]] show ?case by simp
qed

lemma fresh_buildGraph: "n \<in> set (nodes (buildGraph js m)) \<Longrightarrow> fresh n"
  using fresh_fold [of emptyGraph "slice0 js m"] by (simp add: buildGraph_def emptyGraph_def)

lemma links_measureNodes [simp]: "links (measureNodes js g) = links g"
  by (simp add: measureNodes_def)

lemma links_positioned [simp]: "links (positioned js m) = links (buildGraph js m)"
  by (simp add: positioned_def Let_def)

lemma distinct_ids_buildGraph: "distinct (map node_id (nodes (buildGraph js m)))"
  using nodesOk_buildGraph [of js m] by (simp add: nodesOk_def)

lemma nodes_positioned:
  "map stripY (nodes (positioned js m)) =
     map (\<lambda>n. stripY (measured js (links (buildGraph js m)) n)) (nodes (buildGraph js m))"
  by (simp add: positioned_def Let_def positionNodes_frame measureNodes_def
      nodes_trackLinks [OF distinct_ids_buildGraph] measured_def comp_def)

lemma length_nodes_positioned [simp]:
  "length (nodes (positioned js m)) = length (nodes (buildGraph js m))"
  using arg_cong [OF nodes_positioned [of js m], of length] by simp

lemma positioned_nth:
  assumes "k < length (nodes (buildGraph js m))"
  shows "stripY (nodes (positioned js m) ! k)
     = stripY (measured js (links (buildGraph js m)) (nodes (buildGraph js m) ! k))"
  using arg_cong [OF nodes_positioned [of js m], of "\<lambda>xs. xs ! k"] assms by simp

lemma node_id_measured [simp]: "node_id (measured js ls n) = node_id n"
  by (simp add: measured_def measureNode_def Let_def)

lemma node_name_measured [simp]: "node_name (measured js ls n) = node_name n"
  by (simp add: measured_def measureNode_def Let_def tracked_def)

lemma step_measured [simp]: "step (measured js ls n) = step n"
  by (simp add: measured_def measureNode_def Let_def tracked_def)

lemma fresh_no_links: "fresh n \<Longrightarrow> outgoingLinks n = [] \<and> incomingLinks n = []"
proof -
  assume "fresh n"
  then have "outgoingLinks n = outgoingLinks (newNode (node_id n) (node_name n) (step n))"
    "incomingLinks n = incomingLinks (newNode (node_id n) (node_name n) (step n))"
    by (simp_all add: fresh_def)
  then show ?thesis by (simp add: newNode_def)
qed

lemma outgoing_measured:
  "fresh n \<Longrightarrow> outgoingLinks (measured js ls n) = outgoingOf ls (node_id n)"
  by (simp add: measured_def measureNode_def Let_def tracked_def fresh_no_links outgoingOf_def)

lemma incoming_measured:
  "fresh n \<Longrightarrow> incomingLinks (measured js ls n) = incomingOf ls (node_id n)"
  by (simp add: measured_def measureNode_def Let_def tracked_def fresh_no_links incomingOf_def)


lemma node_id_stripY: "node_id n = node_id (stripY n)"
  by (simp add: stripY_def)

lemma positioned_node:
  assumes "n \<in> set (nodes (positioned js m))"
  obtains n0 where "n0 \<in> set (nodes (buildGraph js m))"
    and "stripY n = stripY (measured js (links (buildGraph js m)) n0)" and "hasY n"
proof -
  from assms obtain k where k: "k < length (nodes (buildGraph js m))"
    and n: "n = nodes (positioned js m) ! k"
    by (auto simp: in_set_conv_nth)
  have "hasY n"
    using positionNodes_sets_y [of "nodes (buildGraph js m)"
        "measureNodes js (trackLinks (buildGraph js m))" n] assms
    by (simp add: positioned_def Let_def measureNodes_def
        nodes_trackLinks [OF distinct_ids_buildGraph])
  with positioned_nth [OF k] k n that [of "nodes (buildGraph js m) ! k"] show ?thesis by simp
qed

lemma ids_positioned: "map node_id (nodes (positioned js m)) = map node_id (nodes (buildGraph js m))"
proof -
  have "map node_id (nodes (positioned js m)) = map node_id (map stripY (nodes (positioned js m)))"
    by (simp add: comp_def flip: node_id_stripY)
  also have "\<dots> = map node_id (nodes (buildGraph js m))"
    unfolding nodes_positioned by (simp add: comp_def flip: node_id_stripY)
  finally show ?thesis .
qed

lemma wired_positioned: "wired (nodes (positioned js m)) (links (buildGraph js m))"
  unfolding wired_def
proof (intro conjI ballI)
  show "distinct (map node_id (nodes (positioned js m)))"
    by (simp add: ids_positioned distinct_ids_buildGraph)
next
  fix n assume "n \<in> set (nodes (positioned js m))"
  then obtain n0 where n0: "n0 \<in> set (nodes (buildGraph js m))"
    and s: "stripY n = stripY (measured js (links (buildGraph js m)) n0)"
    by (rule positioned_node)
  from stripY_fields [OF s] fresh_buildGraph [OF n0]
  show "outgoingLinks n = outgoingOf (links (buildGraph js m)) (node_id n)"
    "incomingLinks n = incomingOf (links (buildGraph js m)) (node_id n)"
    by (simp_all add: outgoing_measured incoming_measured)
qed

lemma laidOut_sankey:
  "laidOut (linkWidthScale (links (buildGraph js m))) (nodes (positioned js m))
     (links (buildGraph js m)) (length (nodes (buildGraph js m))) (sankey js m)"
  using laidOut_layoutLinks [of "positioned js m" "linkWidthScale (links (buildGraph js m))"]
    wired_positioned [of js m]
  by (simp add: sankey_positioned)

lemma nodes_sankey:
  "nodes (sankey js m) = map (sortedNode (links (buildGraph js m))) (nodes (positioned js m))"
  using laidOut_sankey [of js m] by (simp add: laidOut_def)

lemma length_links_sankey [simp]: "length (links (sankey js m)) = length (links (buildGraph js m))"
  using laidOut_sankey [of js m] by (simp add: laidOut_def)

lemma core_sankey: "linkCore (links (sankey js m) ! r) = linkCore (links (buildGraph js m) ! r)"
  using laidOut_sankey [of js m] by (simp add: laidOut_def)

lemma cores_sankey: "map linkCore (links (sankey js m)) = map linkCore (links (buildGraph js m))"
  by (rule nth_equalityI) (simp_all add: core_sankey)

lemma sankey_node:
  assumes "n \<in> set (nodes (sankey js m))"
  obtains n0 p where "n0 \<in> set (nodes (buildGraph js m))"
    and "p \<in> set (nodes (positioned js m))"
    and "n = sortedNode (links (buildGraph js m)) p"
    and "stripY p = stripY (measured js (links (buildGraph js m)) n0)" and "hasY p"
proof -
  from assms obtain p where p: "p \<in> set (nodes (positioned js m))"
    "n = sortedNode (links (buildGraph js m)) p"
    by (auto simp: nodes_sankey)
  from p(1) obtain n0 where "n0 \<in> set (nodes (buildGraph js m))"
    "stripY p = stripY (measured js (links (buildGraph js m)) n0)" "hasY p"
    by (rule positioned_node)
  with p that show ?thesis by blast
qed

subsection \<open>Sums of link values\<close>

lemma sum_insort_key: "sum_list (map f (insort_key k x xs)) = f x + sum_list (map f xs)"
  for f :: "'a \<Rightarrow> 'b::comm_monoid_add"
  by (induction xs) (simp_all add: ac_simps)

lemma sum_sort_key: "sum_list (map f (sort_key k xs)) = sum_list (map f xs)"
  for f :: "'a \<Rightarrow> 'b::comm_monoid_add"
  by (induction xs) (simp_all add: sum_insort_key)

lemma filter_upt_nth:
  "map (\<lambda>r. f (ls ! r)) (filter (\<lambda>r. p (ls ! r)) [0..<length ls]) = map f (filter p ls)"
proof -
  have "map f (filter p ls) = map f (filter p (map (nth ls) [0..<length ls]))"
    by (simp add: map_nth)
  also have "\<dots> = map (\<lambda>r. f (ls ! r)) (filter (\<lambda>r. p (ls ! r)) [0..<length ls])"
    by (simp add: filter_map comp_def)
  finally show ?thesis by simp
qed

lemma values_outgoingOf:
  "map (\<lambda>r. link_value (ls ! r)) (outgoingOf ls k) = map link_value (filter (\<lambda>l. source l = k) ls)"
  using filter_upt_nth [of link_value ls "\<lambda>l. source l = k"] by (simp add: outgoingOf_def)

lemma values_incomingOf:
  "map (\<lambda>r. link_value (ls ! r)) (incomingOf ls k) = map link_value (filter (\<lambda>l. target l = k) ls)"
  using filter_upt_nth [of link_value ls "\<lambda>l. target l = k"] by (simp add: incomingOf_def)

text \<open>The sum that the code computes is the exact one when no value is negative and the
  exact sum is at most \<open>2^53\<close>.\<close>

lemma sumValues_exact:
  assumes "\<forall>v \<in> set (map (\<lambda>r. link_value (ls ! r)) rs). 0 \<le> v"
    and "sum_list (map (\<lambda>r. link_value (ls ! r)) rs) \<le> 2 ^ 53"
  shows "sumValues ls rs = sum_list (map (\<lambda>r. link_value (ls ! r)) rs)"
  using foldl_jsAdd_exact [OF assms(1), of 0] assms(2) by (simp add: sumValues_def)

lemma sumValues_buildGraph:
  assumes "exactCounts (slice0 js m)"
  defines "ls \<equiv> links (buildGraph js m)"
  shows "sumValues ls (outgoingOf ls k) = sum_list (map link_value (filter (\<lambda>l. source l = k) ls))"
    and "sumValues ls (incomingOf ls k) = sum_list (map link_value (filter (\<lambda>l. target l = k) ls))"
proof -
  have nn: "\<forall>l \<in> set ls. 0 \<le> link_value l"
    unfolding ls_def using link_values_nonneg [OF assms(1)] by blast
  note b = flow_of_node_buildGraph [OF assms(1), of k, folded ls_def]
  have "sumValues ls (outgoingOf ls k) = sum_list (map (\<lambda>r. link_value (ls ! r)) (outgoingOf ls k))"
    by (rule sumValues_exact) (use nn b(1) in \<open>auto simp: values_outgoingOf\<close>)
  then show "sumValues ls (outgoingOf ls k) =
      sum_list (map link_value (filter (\<lambda>l. source l = k) ls))"
    by (simp add: values_outgoingOf)
  have "sumValues ls (incomingOf ls k) = sum_list (map (\<lambda>r. link_value (ls ! r)) (incomingOf ls k))"
    by (rule sumValues_exact) (use nn b(2) in \<open>auto simp: values_incomingOf\<close>)
  then show "sumValues ls (incomingOf ls k) =
      sum_list (map link_value (filter (\<lambda>l. target l = k) ls))"
    by (simp add: values_incomingOf)
qed

lemma sumValues_cong:
  "(\<And>r. linkCore (ls' ! r) = linkCore (ls ! r)) \<Longrightarrow> sumValues ls' rs = sumValues ls rs"
proof -
  assume "\<And>r. linkCore (ls' ! r) = linkCore (ls ! r)"
  then have "(\<lambda>r. link_value (ls' ! r)) = (\<lambda>r. link_value (ls ! r))"
    by (auto simp: linkCore_def)
  then show ?thesis by (simp add: sumValues_def)
qed

lemma flow_by_core:
  assumes "map linkCore ls' = map linkCore ls"
  shows "sum_list (map link_value (filter (\<lambda>l. source l = k) ls'))
       = sum_list (map link_value (filter (\<lambda>l. source l = k) ls))"
    and "sum_list (map link_value (filter (\<lambda>l. target l = k) ls'))
       = sum_list (map link_value (filter (\<lambda>l. target l = k) ls))"
proof -
  have s: "map link_value (filter (\<lambda>l. source l = k) xs)
      = map (\<lambda>c. snd (snd c)) (filter (\<lambda>c. fst c = k) (map linkCore xs))" for xs
    by (induction xs) (auto simp: linkCore_def)
  have t: "map link_value (filter (\<lambda>l. target l = k) xs)
      = map (\<lambda>c. snd (snd c)) (filter (\<lambda>c. fst (snd c) = k) (map linkCore xs))" for xs
    by (induction xs) (auto simp: linkCore_def)
  show "sum_list (map link_value (filter (\<lambda>l. source l = k) ls'))
       = sum_list (map link_value (filter (\<lambda>l. source l = k) ls))"
    by (simp only: s assms)
  show "sum_list (map link_value (filter (\<lambda>l. target l = k) ls'))
       = sum_list (map link_value (filter (\<lambda>l. target l = k) ls))"
    by (simp only: t assms)
qed

section \<open>Node metadata\<close>

lemma sortedNode_fields [simp]:
  "node_id (sortedNode ls p) = node_id p" "node_name (sortedNode ls p) = node_name p"
  "step (sortedNode ls p) = step p" "height (sortedNode ls p) = height p"
  "node_count (sortedNode ls p) = node_count p"
  "node_percentage (sortedNode ls p) = node_percentage p"
  "node_y (sortedNode ls p) = node_y p"
  "outgoingLinks (sortedNode ls p) = sortByValue ls (outgoingLinks p)"
  "incomingLinks (sortedNode ls p) = sortByValue ls (incomingLinks p)"
  by (simp_all add: sortedNode_def)

lemma measured_fields:
  assumes "fresh n"
  shows "height (measured js ls n) =
      Some (max (linkWidthScale ls (max (sumValues ls (incomingOf ls (node_id n)))
                                        (sumValues ls (outgoingOf ls (node_id n)))))
                MIN_NODE_HEIGHT)"
    and "node_count (measured js ls n) =
      Some (if step n = 0 then sumValues ls (outgoingOf ls (node_id n))
            else sumValues ls (incomingOf ls (node_id n)))"
    and "node_percentage (measured js ls n) =
      Some (case find (\<lambda>j. pathAt j (step n) (node_name n)) js of
              Some j \<Rightarrow> percentage j | None \<Rightarrow> 0)"
  using fresh_no_links [OF assms]
  by (simp_all add: measured_def measureNode_def Let_def tracked_def outgoingOf_def incomingOf_def)

lemma sankey_node_fields:
  assumes "n \<in> set (nodes (sankey js m))"
  defines "ls \<equiv> links (buildGraph js m)"
  shows "outgoingLinks n = sortByValue ls (outgoingOf ls (node_id n))"
    and "incomingLinks n = sortByValue ls (incomingOf ls (node_id n))"
    and "height n =
      Some (max (linkWidthScale ls (max (sumValues ls (incomingOf ls (node_id n)))
                                        (sumValues ls (outgoingOf ls (node_id n)))))
                MIN_NODE_HEIGHT)"
    and "node_count n =
      Some (if step n = 0 then sumValues ls (outgoingOf ls (node_id n))
            else sumValues ls (incomingOf ls (node_id n)))"
    and "node_percentage n =
      Some (case find (\<lambda>j. pathAt j (step n) (node_name n)) js of
              Some j \<Rightarrow> percentage j | None \<Rightarrow> 0)"
    and "node_y n \<noteq> None"
    and "\<exists>n0 \<in> set (nodes (buildGraph js m)).
           node_id n = node_id n0 \<and> node_name n = node_name n0 \<and> step n = step n0"
proof -
  from assms(1) obtain n0 p where n0: "n0 \<in> set (nodes (buildGraph js m))"
    and n: "n = sortedNode ls p"
    and s: "stripY p = stripY (measured js ls n0)" and y: "hasY p"
    unfolding ls_def by (rule sankey_node)
  note f = stripY_fields [OF s] and fr = fresh_buildGraph [OF n0]
  show "outgoingLinks n = sortByValue ls (outgoingOf ls (node_id n))"
    by (simp add: n f outgoing_measured [OF fr])
  show "incomingLinks n = sortByValue ls (incomingOf ls (node_id n))"
    by (simp add: n f incoming_measured [OF fr])
  show "height n =
      Some (max (linkWidthScale ls (max (sumValues ls (incomingOf ls (node_id n)))
                                        (sumValues ls (outgoingOf ls (node_id n)))))
                MIN_NODE_HEIGHT)"
    by (simp add: n f measured_fields [OF fr])
  show "node_count n =
      Some (if step n = 0 then sumValues ls (outgoingOf ls (node_id n))
            else sumValues ls (incomingOf ls (node_id n)))"
    by (simp add: n f measured_fields [OF fr])
  show "node_percentage n =
      Some (case find (\<lambda>j. pathAt j (step n) (node_name n)) js of
              Some j \<Rightarrow> percentage j | None \<Rightarrow> 0)"
    by (simp add: n f measured_fields [OF fr])
  show "node_y n \<noteq> None" using y by (simp add: n hasY_def)
  show "\<exists>n0 \<in> set (nodes (buildGraph js m)).
           node_id n = node_id n0 \<and> node_name n = node_name n0 \<and> step n = step n0"
    using n0 by (auto simp: n f intro!: bexI [of _ n0])
qed

lemma sumValues_sankey:
  "sumValues (links (sankey js m)) rs = sumValues (links (buildGraph js m)) rs"
  by (rule sumValues_cong) (rule core_sankey)

text \<open>
  C2 as stated fails for large values, because the code adds the values as doubles. Three
  journeys that leave \<^verbatim>\<open>/a\<close> for \<^verbatim>\<open>/b\<close>, \<^verbatim>\<open>/c\<close> and \<^verbatim>\<open>/d\<close> with the counts \<open>2^53\<close>, 1 and 1
  give the node \<^verbatim>\<open>0_/a\<close> at layer 0 three outgoing links with these values, which are all
  the links of the graph; they add up to \<open>2^53 + 2\<close>, and the \<^verbatim>\<open>count\<close> of the node is
  \<open>2^53\<close>.
\<close>

theorem node_count_rounded:
  "node_id (nodes (sankey fanJourneys 3) ! 0) = stepKey 0 ''/a'' \<and>
   step (nodes (sankey fanJourneys 3) ! 0) = 0 \<and>
   outgoingLinks (nodes (sankey fanJourneys 3) ! 0) = [0, 1, 2] \<and>
   map source (links (sankey fanJourneys 3)) =
     [stepKey 0 ''/a'', stepKey 0 ''/a'', stepKey 0 ''/a''] \<and>
   map link_value (links (sankey fanJourneys 3)) = [9007199254740992, 1, 1] \<and>
   sum_list (map link_value (links (sankey fanJourneys 3))) = 9007199254740994 \<and>
   node_count (nodes (sankey fanJourneys 3) ! 0) = Some 9007199254740992"
  by code_simp

text \<open>
  C2, amended. When no considered journey has a negative count and the counts of the
  considered journeys add up to at most \<open>2^53\<close>, in the finished graph the \<^verbatim>\<open>count\<close> of every
  node is the sum of the values of its outgoing links when its layer index is 0 and the sum
  of the values of its incoming links otherwise; the outgoing (incoming) links of a node
  are the links of the graph whose source (target) is the node's id.
\<close>

theorem node_count_is_exact_flow:
  assumes "\<forall>j \<in> set (slice0 journeys maxJourneys). 0 \<le> count j"
    and "(\<Sum>j\<leftarrow>slice0 journeys maxJourneys. count j) \<le> 2 ^ 53"
  shows "\<forall>n \<in> set (nodes (sankey journeys maxJourneys)).
     node_count n =
       Some (if step n = 0
             then (\<Sum>r\<leftarrow>outgoingLinks n. link_value (links (sankey journeys maxJourneys) ! r))
             else (\<Sum>r\<leftarrow>incomingLinks n. link_value (links (sankey journeys maxJourneys) ! r))) \<and>
     (\<Sum>r\<leftarrow>outgoingLinks n. link_value (links (sankey journeys maxJourneys) ! r)) =
       sum_list (map link_value
         (filter (\<lambda>l. source l = node_id n) (links (sankey journeys maxJourneys)))) \<and>
     (\<Sum>r\<leftarrow>incomingLinks n. link_value (links (sankey journeys maxJourneys) ! r)) =
       sum_list (map link_value
         (filter (\<lambda>l. target l = node_id n) (links (sankey journeys maxJourneys))))"
proof
  fix n assume n: "n \<in> set (nodes (sankey journeys maxJourneys))"
  let ?G = "sankey journeys maxJourneys" and ?ls = "links (buildGraph journeys maxJourneys)"
  from assms have e: "exactCounts (slice0 journeys maxJourneys)" by (simp add: exactCounts_def)
  note f = sankey_node_fields [OF n] and sv = sumValues_buildGraph [OF e]
  have v: "link_value (links ?G ! r) = link_value (?ls ! r)" for r
    using core_sankey [of journeys maxJourneys r] by (simp add: linkCore_def)
  have out: "(\<Sum>r\<leftarrow>outgoingLinks n. link_value (links ?G ! r)) =
      sum_list (map link_value (filter (\<lambda>l. source l = node_id n) ?ls))"
    by (simp add: v f(1) sortByValue_def sum_sort_key values_outgoingOf)
  have inc: "(\<Sum>r\<leftarrow>incomingLinks n. link_value (links ?G ! r)) =
      sum_list (map link_value (filter (\<lambda>l. target l = node_id n) ?ls))"
    by (simp add: v f(2) sortByValue_def sum_sort_key values_incomingOf)
  note fl = flow_by_core [OF cores_sankey [of journeys maxJourneys]]
  show "node_count n =
       Some (if step n = 0 then (\<Sum>r\<leftarrow>outgoingLinks n. link_value (links ?G ! r))
             else (\<Sum>r\<leftarrow>incomingLinks n. link_value (links ?G ! r))) \<and>
     (\<Sum>r\<leftarrow>outgoingLinks n. link_value (links ?G ! r)) =
       sum_list (map link_value (filter (\<lambda>l. source l = node_id n) (links ?G))) \<and>
     (\<Sum>r\<leftarrow>incomingLinks n. link_value (links ?G ! r)) =
       sum_list (map link_value (filter (\<lambda>l. target l = node_id n) (links ?G)))"
    by (simp add: out inc f(4) fl sv)
qed

text \<open>
  C7. In the finished graph the percentage of every node is the \<^verbatim>\<open>percentage\<close> of the
  first journey of the whole input, in input order, whose path has the node's label at the
  node's layer index, and 0 when there is no such journey.
\<close>

theorem node_percentage_first_match:
  "\<forall>n \<in> set (nodes (sankey journeys maxJourneys)).
     node_percentage n =
       Some (case find (\<lambda>j. pathAt j (step n) (node_name n)) journeys of
               Some j \<Rightarrow> percentage j
             | None \<Rightarrow> 0)"
  by (simp add: sankey_node_fields(5))


lemma sankey_example:
  "sankey exampleJourneys 3 =
     \<lparr>nodes =
        [\<lparr>node_id = ''0_/a'', node_name = ''/a'', step = 0, incomingLinks = [],
          outgoingLinks = [0, 1], height = Some (1000 / 7), node_count = Some 10,
          node_percentage = Some 50, node_y = Some (500 / 7)\<rparr>,
         \<lparr>node_id = ''1_/b'', node_name = ''/b'', step = 1, incomingLinks = [0],
          outgoingLinks = [2], height = Some 100, node_count = Some 7,
          node_percentage = Some 50, node_y = Some 50\<rparr>,
         \<lparr>node_id = ''1_/c'', node_name = ''/c'', step = 1, incomingLinks = [1],
          outgoingLinks = [], height = Some (300 / 7), node_count = Some 3,
          node_percentage = Some 30, node_y = Some (990 / 7)\<rparr>,
         \<lparr>node_id = ''2_/d'', node_name = ''/d'', step = 2, incomingLinks = [2],
          outgoingLinks = [], height = Some (200 / 7), node_count = Some 2,
          node_percentage = Some 20, node_y = Some (100 / 7)\<rparr>],
      links =
        [\<lparr>source = ''0_/a'', target = ''1_/b'', link_value = 7,
          sourceY = Some 50, targetY = Some 50\<rparr>,
         \<lparr>source = ''0_/a'', target = ''1_/c'', link_value = 3,
          sourceY = Some (850 / 7), targetY = Some (990 / 7)\<rparr>,
         \<lparr>source = ''1_/b'', target = ''2_/d'', link_value = 2,
          sourceY = Some (100 / 7), targetY = Some (100 / 7)\<rparr>]\<rparr>"
  by code_simp

theorem node_count_flow_witness:
  "list_all (\<lambda>j. 0 \<le> count j) (slice0 exampleJourneys 3) \<and>
   (\<Sum>j\<leftarrow>slice0 exampleJourneys 3. count j) \<le> 2 ^ 53 \<and>
   nodes (sankey exampleJourneys 3) ! 1 \<in> set (nodes (sankey exampleJourneys 3)) \<and>
   node_count (nodes (sankey exampleJourneys 3) ! 1) = Some 7 \<and>
   sum_list (map link_value
     (filter (\<lambda>l. target l = ''1_/b'') (links (sankey exampleJourneys 3)))) = 7"
proof -
  let ?G = "sankey exampleJourneys 3"
  have c: "\<forall>j \<in> set (slice0 exampleJourneys 3). 0 \<le> count j"
    and t: "(\<Sum>j\<leftarrow>slice0 exampleJourneys 3. count j) \<le> 2 ^ 53"
    using exactCounts_example by simp_all
  have m: "nodes ?G ! 1 \<in> set (nodes ?G)" by (simp add: sankey_example)
  from node_count_is_exact_flow [OF c t] m
  have "node_count (nodes ?G ! 1) =
       Some (if step (nodes ?G ! 1) = 0
             then (\<Sum>r\<leftarrow>outgoingLinks (nodes ?G ! 1). link_value (links ?G ! r))
             else (\<Sum>r\<leftarrow>incomingLinks (nodes ?G ! 1). link_value (links ?G ! r)))"
    and "(\<Sum>r\<leftarrow>incomingLinks (nodes ?G ! 1). link_value (links ?G ! r)) =
       sum_list (map link_value (filter (\<lambda>l. target l = node_id (nodes ?G ! 1)) (links ?G)))"
    by blast+
  with c t m show ?thesis by (simp add: sankey_example list_all_iff)
qed

theorem node_percentage_witness:
  "nodes (sankey exampleJourneys 3) ! 2 \<in> set (nodes (sankey exampleJourneys 3)) \<and>
   node_percentage (nodes (sankey exampleJourneys 3) ! 2) = Some 30"
proof -
  let ?G = "sankey exampleJourneys 3"
  have m: "nodes ?G ! 2 \<in> set (nodes ?G)" by (simp add: sankey_example)
  from node_percentage_first_match [of exampleJourneys 3] m
  have "node_percentage (nodes ?G ! 2) =
       Some (case find (\<lambda>j. pathAt j (step (nodes ?G ! 2)) (node_name (nodes ?G ! 2)))
                    exampleJourneys of
               Some j \<Rightarrow> percentage j
             | None \<Rightarrow> 0)"
    by blast
  moreover have "find (\<lambda>j. pathAt j 1 ''/c'') exampleJourneys =
      Some \<lparr>path = [''/a'', ''/c''], count = 3, percentage = 30\<rparr>"
    by (simp add: exampleJourneys_def pathAt_def)
  ultimately show ?thesis using m by (simp add: sankey_example)
qed

section \<open>The cutoff and empty inputs\<close>

lemma slice0_nonneg: "0 \<le> m \<Longrightarrow> slice0 xs m = take (nat m) xs"
  by (auto simp: slice0_def Let_def min_def)

lemma slice0_prefix: "\<exists>k. slice0 xs m = take k xs"
  by (auto simp: slice0_def Let_def)

lemma set_slice0: "set (slice0 js m) \<subseteq> set js"
  using slice0_prefix [of js m] by (auto dest: in_set_takeD)

lemma buildGraph_take: "0 \<le> m \<Longrightarrow> buildGraph (take (nat m) js) m = buildGraph js m"
  by (simp add: buildGraph_def slice0_nonneg)

lemma find_prefix: "\<exists>x \<in> set (take k xs). p x \<Longrightarrow> find p (take k xs) = find p xs"
proof (induction xs arbitrary: k)
  case Nil
  then show ?case by simp
next
  case (Cons x xs)
  then show ?case by (cases k) auto
qed

lemma measureNode_prefix:
  assumes "\<exists>j \<in> set (take k js). pathAt j (step n) (node_name n)"
  shows "measureNode (take k js) ls n = measureNode js ls n"
  by (simp add: measureNode_def Let_def find_prefix [OF assms])

lemma built_node_has_journey:
  assumes "n \<in> set (nodes (buildGraph js m))"
  shows "\<exists>j \<in> set (slice0 js m). pathAt j (step n) (node_name n)"
proof -
  from assms have "nodeKey n \<in> nodeKey ` set (nodes (buildGraph js m))" by simp
  then show ?thesis unfolding nodeKeys_buildGraph by (auto simp: nodeKey_def pathAt_def)
qed

lemma measureNodes_take:
  assumes "0 \<le> m"
  shows "measureNodes (take (nat m) js) (trackLinks (buildGraph js m))
       = measureNodes js (trackLinks (buildGraph js m))"
proof -
  have "measureNode (take (nat m) js) ls (tracked ls rs n) = measureNode js ls (tracked ls rs n)"
    if "n \<in> set (nodes (buildGraph js m))" for n ls rs
  proof (rule measureNode_prefix)
    from built_node_has_journey [OF that] assms
    show "\<exists>j \<in> set (take (nat m) js).
        pathAt j (step (tracked ls rs n)) (node_name (tracked ls rs n))"
      by (simp add: slice0_nonneg tracked_def)
  qed
  then show ?thesis
    by (simp add: measureNodes_def nodes_trackLinks [OF distinct_ids_buildGraph])
qed

lemma sankey_take: "0 \<le> m \<Longrightarrow> sankey (take (nat m) js) m = sankey js m"
  by (simp add: sankey_def Let_def buildGraph_take measureNodes_take)

lemma sankey_emptyGraph: "buildGraph js m = emptyGraph \<Longrightarrow> sankey js m = emptyGraph"
  by (simp add: sankey_def Let_def emptyGraph_def trackLinks_def measureNodes_def
      nodesByStep_def positionNodes_def layoutLinks_def)

lemma buildGraph_Nil: "buildGraph [] m = emptyGraph"
  by (simp add: buildGraph_def slice0_def)

lemma buildGraph_zero: "buildGraph js 0 = emptyGraph"
  by (simp add: buildGraph_def slice0_def)

lemma fold_addJourney_empty_paths:
  "\<forall>j \<in> set js. path j = [] \<Longrightarrow> fold addJourney js g = g"
  by (induction js arbitrary: g) (simp_all add: addJourney_def)

lemma buildGraph_empty_paths:
  assumes "\<forall>j \<in> set js. path j = []"
  shows "buildGraph js m = emptyGraph"
proof -
  obtain k where "slice0 js m = take k js" using slice0_prefix by blast
  with assms have "\<forall>j \<in> set (slice0 js m). path j = []" by (auto dest: in_set_takeD)
  then show ?thesis unfolding buildGraph_def by (rule fold_addJourney_empty_paths)
qed

text \<open>
  C8. With a cutoff that is not negative, the build and the finished graph are those of the
  first \<open>maxJourneys\<close> journeys alone: the journeys after them add no node and no link.
  An empty list of journeys, a cutoff of 0, and journeys whose paths are all empty give the
  empty graph. The model has no error value because the code has no statement that raises.
\<close>

theorem build_cutoff_and_empty:
  "(0 \<le> maxJourneys \<longrightarrow>
      buildGraph journeys maxJourneys = buildGraph (take (nat maxJourneys) journeys) maxJourneys \<and>
      sankey journeys maxJourneys = sankey (take (nat maxJourneys) journeys) maxJourneys) \<and>
   buildGraph [] maxJourneys = emptyGraph \<and> sankey [] maxJourneys = emptyGraph \<and>
   buildGraph journeys 0 = emptyGraph \<and> sankey journeys 0 = emptyGraph \<and>
   ((\<forall>j \<in> set journeys. path j = []) \<longrightarrow>
      buildGraph journeys maxJourneys = emptyGraph \<and> sankey journeys maxJourneys = emptyGraph)"
  by (simp add: buildGraph_take sankey_take buildGraph_Nil buildGraph_zero buildGraph_empty_paths
      sankey_emptyGraph)

theorem build_cutoff_witness:
  "sankey exampleJourneys 2 = sankey (take 2 exampleJourneys) 2 \<and>
   length (links (buildGraph exampleJourneys 2)) = 2 \<and>
   sankey [\<lparr>path = [], count = 4, percentage = 100\<rparr>] 5 = \<lparr>nodes = [], links = []\<rparr>"
proof -
  have "(0::int) \<le> 2" by simp
  with build_cutoff_and_empty [of 2 exampleJourneys]
  have "buildGraph exampleJourneys 2 = buildGraph (take (nat 2) exampleJourneys) 2"
    "sankey exampleJourneys 2 = sankey (take (nat 2) exampleJourneys) 2" by blast+
  moreover have "length (links (buildGraph (take (nat 2) exampleJourneys) 2)) = 2" by code_simp
  moreover have "\<forall>j \<in> set [\<lparr>path = [], count = 4, percentage = 100\<rparr>]. path j = []" by simp
  with build_cutoff_and_empty [of 5 "[\<lparr>path = [], count = 4, percentage = 100\<rparr>]"]
  have "sankey [\<lparr>path = [], count = 4, percentage = 100\<rparr>] 5 = emptyGraph" by blast
  ultimately show ?thesis by (simp add: emptyGraph_def)
qed

section \<open>Order and anchors of the stacked links\<close>

lemma insort_key_stable:
  fixes k :: "nat \<Rightarrow> int"
  assumes "sorted_wrt (\<lambda>a b. k a < k b \<or> (k a = k b \<and> a < b)) ys" and "\<forall>y \<in> set ys. x < y"
  shows "sorted_wrt (\<lambda>a b. k a < k b \<or> (k a = k b \<and> a < b)) (insort_key k x ys)"
  using assms
proof (induction ys)
  case Nil
  then show ?case by simp
next
  case (Cons y ys)
  show ?case
  proof (cases "k x \<le> k y")
    case True
    with Cons.prems show ?thesis by (auto simp: set_insort_key) 
  next
    case False
    with Cons show ?thesis by (auto simp: set_insort_key)
  qed
qed

lemma sort_key_stable:
  fixes k :: "nat \<Rightarrow> int"
  assumes "sorted_wrt (<) xs"
  shows "sorted_wrt (\<lambda>a b. k a < k b \<or> (k a = k b \<and> a < b)) (sort_key k xs)"
  using assms
proof (induction xs)
  case Nil
  then show ?case by simp
next
  case (Cons x xs)
  then have "sorted_wrt (\<lambda>a b. k a < k b \<or> (k a = k b \<and> a < b)) (sort_key k xs)"
    and "\<forall>y \<in> set (sort_key k xs). x < y" by auto
  then show ?case by (simp add: insort_key_stable)
qed

lemma sortByValue_stacks:
  assumes "sorted_wrt (<) rs"
  shows "sorted_wrt (stacksBefore ls) (sortByValue ls rs)"
proof -
  have "stacksBefore ls = (\<lambda>a b. - link_value (ls ! a) < - link_value (ls ! b) \<or>
      (- link_value (ls ! a) = - link_value (ls ! b) \<and> a < b))"
    by (auto simp: stacksBefore_def fun_eq_iff)
  with sort_key_stable [OF assms, of "\<lambda>r. - link_value (ls ! r)"] show ?thesis
    by (simp add: sortByValue_def)
qed

lemma sorted_outgoingOf: "sorted_wrt (<) (outgoingOf ls k)"
  unfolding outgoingOf_def by (rule sorted_wrt_filter) (rule sorted_wrt_upt)

lemma sorted_incomingOf: "sorted_wrt (<) (incomingOf ls k)"
  unfolding incomingOf_def by (rule sorted_wrt_filter) (rule sorted_wrt_upt)

lemma stacksBefore_cong:
  "(\<And>r. linkCore (ls' ! r) = linkCore (ls ! r)) \<Longrightarrow> stacksBefore ls' = stacksBefore ls"
proof -
  assume "\<And>r. linkCore (ls' ! r) = linkCore (ls ! r)"
  then have "link_value (ls' ! r) = link_value (ls ! r)" for r
    by (metis linkCore_def snd_conv)
  then show ?thesis by (simp add: stacksBefore_def fun_eq_iff)
qed

lemma maxLinkValue_cong:
  assumes "map linkCore ls' = map linkCore ls"
  shows "maxLinkValue ls' = maxLinkValue ls"
proof -
  have v: "map link_value xs = map (\<lambda>c. snd (snd c)) (map linkCore xs)" for xs
    by (simp add: linkCore_def comp_def)
  have m: "maxLinkValue xs =
      (case map link_value xs of [] \<Rightarrow> 1
       | v # vs \<Rightarrow> (let m = fold max vs v in if m = 0 then 1 else m))" for xs
    by (cases xs) (simp_all add: maxLinkValue_def)
  show ?thesis by (simp only: m v assms)
qed

lemma linkWidthScale_sankey:
  "linkWidthScale (links (sankey js m)) = linkWidthScale (links (buildGraph js m))"
  by (simp add: linkWidthScale_def [abs_def] maxLinkValue_cong [OF cores_sankey])

lemma value_sankey: "link_value (links (sankey js m) ! r) = link_value (links (buildGraph js m) ! r)"
  using core_sankey [of js m r] by (simp add: linkCore_def)

lemma source_sankey: "source (links (sankey js m) ! r) = source (links (buildGraph js m) ! r)"
  using core_sankey [of js m r] by (simp add: linkCore_def)

lemma target_sankey: "target (links (sankey js m) ! r) = target (links (buildGraph js m) ! r)"
  using core_sankey [of js m r] by (simp add: linkCore_def)

lemma sankey_anchors:
  assumes n: "n \<in> set (nodes (sankey js m))"
  defines "G \<equiv> sankey js m"
  shows "i < length (outgoingLinks n) \<Longrightarrow>
      sourceY (links G ! (outgoingLinks n ! i)) =
        Some (anchor (linkWidthScale (links G)) (links G) (nodeTop n) (outgoingLinks n) i)"
    and "i < length (incomingLinks n) \<Longrightarrow>
      targetY (links G ! (incomingLinks n ! i)) =
        Some (anchor (linkWidthScale (links G)) (links G) (nodeTop n) (incomingLinks n) i)"
proof -
  let ?ls = "links (buildGraph js m)" and ?ns = "nodes (positioned js m)"
  from n obtain k where k: "k < length ?ns" and nk: "n = sortedNode ?ls (?ns ! k)"
    by (auto simp: nodes_sankey in_set_conv_nth)
  have a: "anchor (linkWidthScale (links G)) (links G) = anchor (linkWidthScale ?ls) ?ls"
    unfolding G_def linkWidthScale_sankey by (rule anchor_cong) (rule value_sankey)
  note lo = laidOut_sankey [of js m, unfolded laidOut_def]
  from lo k have src: "i < length (outgoingLinks (?ns ! k)) \<Longrightarrow>
      sourceY (links (sankey js m) ! (sortByValue ?ls (outgoingLinks (?ns ! k)) ! i)) =
        Some (anchor (linkWidthScale ?ls) ?ls (nodeTop (?ns ! k))
               (sortByValue ?ls (outgoingLinks (?ns ! k))) i)" for i
    by simp
  from lo k have tgt: "i < length (incomingLinks (?ns ! k)) \<Longrightarrow>
      targetY (links (sankey js m) ! (sortByValue ?ls (incomingLinks (?ns ! k)) ! i)) =
        Some (anchor (linkWidthScale ?ls) ?ls (nodeTop (?ns ! k))
               (sortByValue ?ls (incomingLinks (?ns ! k))) i)" for i
    by simp
  show "sourceY (links G ! (outgoingLinks n ! i)) =
        Some (anchor (linkWidthScale (links G)) (links G) (nodeTop n) (outgoingLinks n) i)"
    if "i < length (outgoingLinks n)"
    using src [of i] that by (simp add: a [unfolded G_def] nk G_def)
  show "targetY (links G ! (incomingLinks n ! i)) =
        Some (anchor (linkWidthScale (links G)) (links G) (nodeTop n) (incomingLinks n) i)"
    if "i < length (incomingLinks n)"
    using tgt [of i] that by (simp add: a [unfolded G_def] nk G_def)
qed

lemma sankey_link_lists:
  assumes n: "n \<in> set (nodes (sankey js m))"
  defines "G \<equiv> sankey js m"
  shows "set (outgoingLinks n) = {r. r < length (links G) \<and> source (links G ! r) = node_id n}"
    and "set (incomingLinks n) = {r. r < length (links G) \<and> target (links G ! r) = node_id n}"
    and "sorted_wrt (stacksBefore (links G)) (outgoingLinks n)"
    and "sorted_wrt (stacksBefore (links G)) (incomingLinks n)"
proof -
  note f = sankey_node_fields [OF n]
  have s: "stacksBefore (links G) = stacksBefore (links (buildGraph js m))"
    unfolding G_def by (rule stacksBefore_cong) (rule core_sankey)
  show "set (outgoingLinks n) = {r. r < length (links G) \<and> source (links G ! r) = node_id n}"
    by (auto simp: f(1) G_def outgoingOf_def source_sankey)
  show "set (incomingLinks n) = {r. r < length (links G) \<and> target (links G ! r) = node_id n}"
    by (auto simp: f(2) G_def incomingOf_def target_sankey)
  show "sorted_wrt (stacksBefore (links G)) (outgoingLinks n)"
    by (simp add: s f(1) sortByValue_stacks sorted_outgoingOf)
  show "sorted_wrt (stacksBefore (links G)) (incomingLinks n)"
    by (simp add: s f(2) sortByValue_stacks sorted_incomingOf)
qed


text \<open>
  C5. In the finished graph, for every node: the vertical position and the height are set;
  \<^verbatim>\<open>outgoingLinks\<close> holds exactly the links that leave the node and \<^verbatim>\<open>incomingLinks\<close>
  exactly those that enter it, each list in the order of descending value with ties in
  creation order; and the anchor of the \<open>i\<close>-th link of a list is the top edge of the
  node, plus the scaled thicknesses of the links before it in the list, plus half its own
  scaled thickness. In the scenario with counts 5 and 3 the node \<^verbatim>\<open>/a\<close> lists the link of
  value 5 first, with its anchor at 50, above the anchor at 130 of the link of value 3.
\<close>

theorem links_stacked_by_descending_value:
  "(\<forall>n \<in> set (nodes (sankey journeys maxJourneys)).
      (\<exists>y h. node_y n = Some y \<and> height n = Some h \<and> nodeTop n = y - h / 2) \<and>
      set (outgoingLinks n) = {r. r < length (links (sankey journeys maxJourneys)) \<and> source (links (sankey journeys maxJourneys) ! r) = node_id n} \<and>
      set (incomingLinks n) = {r. r < length (links (sankey journeys maxJourneys)) \<and> target (links (sankey journeys maxJourneys) ! r) = node_id n} \<and>
      sorted_wrt (stacksBefore (links (sankey journeys maxJourneys))) (outgoingLinks n) \<and>
      sorted_wrt (stacksBefore (links (sankey journeys maxJourneys))) (incomingLinks n) \<and>
      (\<forall>i < length (outgoingLinks n).
         sourceY (links (sankey journeys maxJourneys) ! (outgoingLinks n ! i)) =
           Some (nodeTop n
                 + (\<Sum>r\<leftarrow>take i (outgoingLinks n). linkWidthScale (links (sankey journeys maxJourneys)) (link_value (links (sankey journeys maxJourneys) ! r)))
                 + linkWidthScale (links (sankey journeys maxJourneys)) (link_value (links (sankey journeys maxJourneys) ! (outgoingLinks n ! i))) / 2)) \<and>
      (\<forall>i < length (incomingLinks n).
         targetY (links (sankey journeys maxJourneys) ! (incomingLinks n ! i)) =
           Some (nodeTop n
                 + (\<Sum>r\<leftarrow>take i (incomingLinks n). linkWidthScale (links (sankey journeys maxJourneys)) (link_value (links (sankey journeys maxJourneys) ! r)))
                 + linkWidthScale (links (sankey journeys maxJourneys)) (link_value (links (sankey journeys maxJourneys) ! (incomingLinks n ! i))) / 2))) \<and>
   node_name (nodes (sankey scenarioJourneys 2) ! 0) = ''/a'' \<and>
   map (\<lambda>r. linkCore (links (sankey scenarioJourneys 2) ! r))
     (outgoingLinks (nodes (sankey scenarioJourneys 2) ! 0)) =
     [(''0_/a'', ''1_/b'', 5), (''0_/a'', ''1_/c'', 3)] \<and>
   map (\<lambda>r. sourceY (links (sankey scenarioJourneys 2) ! r))
     (outgoingLinks (nodes (sankey scenarioJourneys 2) ! 0)) = [Some 50, Some 130]"
proof (intro conjI ballI)
  fix n assume n: "n \<in> set (nodes (sankey journeys maxJourneys))"
  note f = sankey_node_fields [OF n] and l = sankey_link_lists [OF n]
    and a = sankey_anchors [OF n, unfolded anchor_def]
  from f(3,6) show "\<exists>y h. node_y n = Some y \<and> height n = Some h \<and> nodeTop n = y - h / 2"
    by (auto simp: nodeTop_def)
  from l show "set (outgoingLinks n) = {r. r < length (links (sankey journeys maxJourneys)) \<and> source (links (sankey journeys maxJourneys) ! r) = node_id n}"
    "set (incomingLinks n) = {r. r < length (links (sankey journeys maxJourneys)) \<and> target (links (sankey journeys maxJourneys) ! r) = node_id n}"
    "sorted_wrt (stacksBefore (links (sankey journeys maxJourneys))) (outgoingLinks n)"
    "sorted_wrt (stacksBefore (links (sankey journeys maxJourneys))) (incomingLinks n)"
    by simp_all
  from a(1) show "\<forall>i < length (outgoingLinks n).
         sourceY (links (sankey journeys maxJourneys) ! (outgoingLinks n ! i)) =
           Some (nodeTop n
                 + (\<Sum>r\<leftarrow>take i (outgoingLinks n). linkWidthScale (links (sankey journeys maxJourneys)) (link_value (links (sankey journeys maxJourneys) ! r)))
                 + linkWidthScale (links (sankey journeys maxJourneys)) (link_value (links (sankey journeys maxJourneys) ! (outgoingLinks n ! i))) / 2)"
    by simp
  from a(2) show "\<forall>i < length (incomingLinks n).
         targetY (links (sankey journeys maxJourneys) ! (incomingLinks n ! i)) =
           Some (nodeTop n
                 + (\<Sum>r\<leftarrow>take i (incomingLinks n). linkWidthScale (links (sankey journeys maxJourneys)) (link_value (links (sankey journeys maxJourneys) ! r)))
                 + linkWidthScale (links (sankey journeys maxJourneys)) (link_value (links (sankey journeys maxJourneys) ! (incomingLinks n ! i))) / 2)"
    by simp
next
  show "node_name (nodes (sankey scenarioJourneys 2) ! 0) = ''/a''"
    by code_simp
  show "map (\<lambda>r. linkCore (links (sankey scenarioJourneys 2) ! r))
     (outgoingLinks (nodes (sankey scenarioJourneys 2) ! 0)) =
     [(''0_/a'', ''1_/b'', 5), (''0_/a'', ''1_/c'', 3)]"
    by code_simp
  show "map (\<lambda>r. sourceY (links (sankey scenarioJourneys 2) ! r))
     (outgoingLinks (nodes (sankey scenarioJourneys 2) ! 0)) = [Some 50, Some 130]"
    by code_simp
qed

theorem links_stacked_witness:
  "nodes (sankey exampleJourneys 3) ! 0 \<in> set (nodes (sankey exampleJourneys 3)) \<and>
   outgoingLinks (nodes (sankey exampleJourneys 3) ! 0) = [0, 1] \<and>
   stacksBefore (links (sankey exampleJourneys 3)) 0 1 \<and>
   sourceY (links (sankey exampleJourneys 3) ! 1) = Some (850 / 7)"
proof -
  let ?G = "sankey exampleJourneys 3"
  let ?n = "nodes ?G ! 0"
  have m: "?n \<in> set (nodes ?G)" by (simp add: sankey_example)
  have o: "outgoingLinks ?n = [0, 1]" by (simp add: sankey_example)
  from links_stacked_by_descending_value [of exampleJourneys 3] m
  have s: "sorted_wrt (stacksBefore (links ?G)) (outgoingLinks ?n)"
    and a: "\<forall>i < length (outgoingLinks ?n).
         sourceY (links ?G ! (outgoingLinks ?n ! i)) =
           Some (nodeTop ?n
                 + (\<Sum>r\<leftarrow>take i (outgoingLinks ?n). linkWidthScale (links ?G) (link_value (links ?G ! r)))
                 + linkWidthScale (links ?G) (link_value (links ?G ! (outgoingLinks ?n ! i))) / 2)"
    by blast+
  from a o have "sourceY (links ?G ! 1) =
           Some (nodeTop ?n
                 + (\<Sum>r\<leftarrow>take 1 [0, 1]. linkWidthScale (links ?G) (link_value (links ?G ! r)))
                 + linkWidthScale (links ?G) (link_value (links ?G ! 1)) / 2)"
    by (metis One_nat_def length_Cons lessI list.size(3) nth_Cons_0 nth_Cons_Suc)
  also have "\<dots> = Some (850 / 7)"
    by (simp add: sankey_example nodeTop_def linkWidthScale_def scaleLinear_def maxLinkValue_def
        MIN_LINK_HEIGHT_def MAX_LINK_HEIGHT_def)
  finally have "sourceY (links ?G ! 1) = Some (850 / 7)" .
  with m o s show ?thesis by simp
qed

section \<open>Colours of nodes and links\<close>

lemma map_of_mapSet: "map_of (mapSet k v m) = (map_of m)(k \<mapsto> v)"
  by (induction m) (auto simp: fun_eq_iff)

lemma mapSet_tabulate:
  "mapSet k v (map (\<lambda>x. (x, g x)) ks) =
     (if k \<in> set ks then map (\<lambda>x. (x, if x = k then v else g x)) ks
      else map (\<lambda>x. (x, g x)) ks @ [(k, v)])"
  if "distinct ks"
  using that by (induction ks) auto

lemma map_of_tabulate: "map_of (map (\<lambda>x. (x, g x)) ks) k = (if k \<in> set ks then Some (g k) else None)"
  by (induction ks) auto

lemma firstSeen_set [simp]: "set (firstSeen xs) = set xs"
  by (induction xs) auto

lemma firstSeen_distinct [simp]: "distinct (firstSeen xs)"
  by (induction xs) auto

lemma firstSeen_snoc:
  "firstSeen (xs @ [x]) = (if x \<in> set xs then firstSeen xs else firstSeen xs @ [x])"
proof (induction xs)
  case Nil
  then show ?case by simp
next
  case (Cons a xs)
  have "x \<notin> set ys \<Longrightarrow> filter (\<lambda>y. y \<noteq> a) ys = ys' \<Longrightarrow>
      filter (\<lambda>y. y \<noteq> a) (ys @ [x]) = (if x = a then ys' else ys' @ [x])" for ys ys'
    by auto
  with Cons show ?case by auto
qed

lemma segmentCounts_snoc: "segmentCounts (ns @ [n]) = countSegment n (segmentCounts ns)"
  by (simp add: segmentCounts_def)

lemma segmentKeys_snoc: "segmentKeys (ns @ [n]) = segmentKeys ns @ [getFirstSegment (node_name n)]"
  by (simp add: segmentKeys_def)

lemma segmentCounts_tabulate:
  "segmentCounts ns =
     map (\<lambda>k. (k, count_list (segmentKeys ns) k)) (firstSeen (segmentKeys ns))"
proof (induction ns rule: rev_induct)
  case Nil
  then show ?case by (simp add: segmentCounts_def segmentKeys_def)
next
  case (snoc n ns)
  let ?k = "getFirstSegment (node_name n)" and ?keys = "segmentKeys ns"
  have c: "(case map_of (segmentCounts ns) ?k of Some c \<Rightarrow> c | None \<Rightarrow> 0) = count_list ?keys ?k"
    by (simp add: snoc.IH map_of_tabulate count_list_0_iff)
  show ?case
    unfolding segmentCounts_snoc segmentKeys_snoc countSegment_def Let_def c
    by (subst snoc.IH) (auto simp: mapSet_tabulate firstSeen_snoc)
qed


lemma assignColors_lookup_aux:
  "distinct (map fst cs) \<Longrightarrow>
   (\<forall>j < length (map fst (filter (\<lambda>(k, c). c > 1) cs)).
      map_of (assignColors i cs m) (map fst (filter (\<lambda>(k, c). c > 1) cs) ! j) =
        Some (colorPalette ! ((i + j) mod length colorPalette))) \<and>
   (\<forall>k. k \<notin> set (map fst (filter (\<lambda>(k, c). c > 1) cs)) \<longrightarrow>
      map_of (assignColors i cs m) k = map_of m k)"
proof (induction cs arbitrary: i m)
  case Nil
  then show ?case by simp
next
  case (Cons a cs)
  obtain s c where a: "a = (s, c)" by (cases a)
  let ?rep = "map fst (filter (\<lambda>(k, c). c > 1) cs)"
  from Cons.prems a have d: "distinct (map fst cs)" and s: "s \<notin> set ?rep"
    by (auto simp: image_iff)
  note ih = Cons.IH [OF d]
  show ?case
  proof (cases "c > 1")
    case True
    let ?m = "mapSet s (colorPalette ! (i mod length colorPalette)) m"
    from ih [of "i + 1" ?m]
    have 1: "\<And>j. j < length ?rep \<Longrightarrow> map_of (assignColors (i + 1) cs ?m) (?rep ! j) =
        Some (colorPalette ! ((i + 1 + j) mod length colorPalette))"
      and 2: "\<And>k. k \<notin> set ?rep \<Longrightarrow> map_of (assignColors (i + 1) cs ?m) k = map_of ?m k"
      by blast+
    have "map_of (assignColors i (a # cs) m) ((s # ?rep) ! j) =
        Some (colorPalette ! ((i + j) mod length colorPalette))" if "j < length (s # ?rep)" for j
    proof (cases j)
      case 0
      with 2 [OF s] True show ?thesis by (simp add: a map_of_mapSet)
    next
      case (Suc j')
      with that have "j' < length ?rep" by simp
      from 1 [OF this] True show ?thesis by (simp add: a Suc)
    qed
    moreover have "map_of (assignColors i (a # cs) m) k = map_of m k" if "k \<notin> set (s # ?rep)" for k
    proof -
      from that have "k \<notin> set ?rep" "k \<noteq> s" by auto
      from 2 [OF this(1)] this(2) True show ?thesis by (simp add: a map_of_mapSet)
    qed
    ultimately show ?thesis using True by (simp add: a)
  next
    case False
    with ih [of i m] show ?thesis by (simp add: a)
  qed
qed

lemma assignColors_lookup:
  assumes "distinct (map fst cs)"
  shows "j < length (map fst (filter (\<lambda>(k, c). c > 1) cs)) \<Longrightarrow>
      map_of (assignColors i cs m) (map fst (filter (\<lambda>(k, c). c > 1) cs) ! j) =
        Some (colorPalette ! ((i + j) mod length colorPalette))"
    and "k \<notin> set (map fst (filter (\<lambda>(k, c). c > 1) cs)) \<Longrightarrow>
      map_of (assignColors i cs m) k = map_of m k"
  using assignColors_lookup_aux [OF assms, of i m] by blast+

lemma repeatedKeys_counts:
  "repeatedKeys ns = map fst (filter (\<lambda>(k, c). c > 1) (segmentCounts ns))"
  by (simp add: repeatedKeys_def segmentCounts_tabulate filter_map comp_def)

lemma distinct_segmentCounts: "distinct (map fst (segmentCounts ns))"
  by (simp add: segmentCounts_tabulate comp_def)

lemma palette_nonempty: "j < length colorPalette \<Longrightarrow> colorPalette ! j \<noteq> []"
proof -
  have "\<forall>c \<in> set colorPalette. c \<noteq> []" by (simp add: colorPalette_def)
  then show "j < length colorPalette \<Longrightarrow> colorPalette ! j \<noteq> []" by simp
qed

lemma getNodeColor_repeated:
  assumes "j < length (repeatedKeys ns)" and "getFirstSegment (node_name n) = repeatedKeys ns ! j"
  shows "getNodeColor ns n = colorPalette ! (j mod length colorPalette)"
proof -
  have "j mod length colorPalette < length colorPalette" by (simp add: colorPalette_def)
  from palette_nonempty [OF this]
    assignColors_lookup(1) [OF distinct_segmentCounts, of j ns 0 "[]"] assms
  show ?thesis by (simp add: getNodeColor_def segmentColors_def repeatedKeys_counts)
qed

lemma getNodeColor_single:
  assumes "getFirstSegment (node_name n) \<notin> set (repeatedKeys ns)"
  shows "getNodeColor ns n = defaultColor"
  using assignColors_lookup(2) [OF distinct_segmentCounts, of _ ns 0 "[]"] assms
  by (simp add: getNodeColor_def segmentColors_def repeatedKeys_counts)

lemma set_repeatedKeys: "set (repeatedKeys ns) = {k \<in> set (segmentKeys ns). 1 < count_list (segmentKeys ns) k}"
  by (auto simp: repeatedKeys_def)


lemma ids_sankey: "map node_id (nodes (sankey js m)) = map node_id (nodes (buildGraph js m))"
  by (simp add: nodes_sankey comp_def ids_positioned)

lemma find_node_Some:
  assumes "k \<in> node_id ` set ns"
  obtains s where "find (\<lambda>n. node_id n = k) ns = Some s" "s \<in> set ns" "node_id s = k"
proof -
  from assms find_node_None [of k ns] obtain s where "find (\<lambda>n. node_id n = k) ns = Some s"
    by auto
  with find_Some_mem [OF this] that show ?thesis by blast
qed

lemma link_source_has_node:
  assumes "l \<in> set (links (sankey js m))"
  shows "source l \<in> node_id ` set (nodes (sankey js m))"
proof -
  from assms have "linkCore l \<in> set (map linkCore (links (sankey js m)))" by simp
  then obtain l0 where l0: "l0 \<in> set (links (buildGraph js m))" "linkCore l0 = linkCore l"
    unfolding cores_sankey by auto
  from link_ends_buildGraph [OF l0(1)] obtain s where
    "s \<in> set (nodes (buildGraph js m))" "node_id s = source l0" by blast
  then have "source l0 \<in> set (map node_id (nodes (buildGraph js m)))" by force
  moreover from l0(2) have "source l0 = source l" by (simp add: linkCore_def)
  ultimately show ?thesis by (simp add: ids_sankey flip: set_map)
qed

text \<open>
  C9. In the finished graph: the segment keys that occur more than once among the nodes,
  listed in the order they are first seen, get the palette colours in turn, wrapping
  around at the end of the palette; a node whose segment key occurs once gets the default
  colour; the colour of a node depends on its segment key only; and the colour of a link is
  the colour of the node that is its source.
\<close>

theorem colours_by_segment:
  "(\<forall>n \<in> set (nodes (sankey journeys maxJourneys)).
      (\<forall>j < length (repeatedKeys (nodes (sankey journeys maxJourneys))).
          getFirstSegment (node_name n) = repeatedKeys (nodes (sankey journeys maxJourneys)) ! j \<longrightarrow>
          getNodeColor (nodes (sankey journeys maxJourneys)) n = colorPalette ! (j mod length colorPalette)) \<and>
      (count_list (segmentKeys (nodes (sankey journeys maxJourneys))) (getFirstSegment (node_name n)) = 1 \<longrightarrow>
          getNodeColor (nodes (sankey journeys maxJourneys)) n = defaultColor)) \<and>
   distinct (repeatedKeys (nodes (sankey journeys maxJourneys))) \<and>
   set (repeatedKeys (nodes (sankey journeys maxJourneys))) =
     {k \<in> set (segmentKeys (nodes (sankey journeys maxJourneys))). 1 < count_list (segmentKeys (nodes (sankey journeys maxJourneys))) k} \<and>
   (\<forall>l \<in> set (links (sankey journeys maxJourneys)). \<exists>s \<in> set (nodes (sankey journeys maxJourneys)).
      node_id s = source l \<and> getLinkColor (sankey journeys maxJourneys) linkColor l = getNodeColor (nodes (sankey journeys maxJourneys)) s)"
proof (intro conjI ballI allI impI)
  fix n :: node and j
  assume "j < length (repeatedKeys (nodes (sankey journeys maxJourneys)))"
    "getFirstSegment (node_name n) = repeatedKeys (nodes (sankey journeys maxJourneys)) ! j"
  then show "getNodeColor (nodes (sankey journeys maxJourneys)) n = colorPalette ! (j mod length colorPalette)"
    by (rule getNodeColor_repeated)
next
  fix n :: node
  assume "count_list (segmentKeys (nodes (sankey journeys maxJourneys))) (getFirstSegment (node_name n)) = 1"
  then have "getFirstSegment (node_name n) \<notin> set (repeatedKeys (nodes (sankey journeys maxJourneys)))"
    by (simp add: set_repeatedKeys)
  then show "getNodeColor (nodes (sankey journeys maxJourneys)) n = defaultColor" by (rule getNodeColor_single)
next
  show "distinct (repeatedKeys (nodes (sankey journeys maxJourneys)))" by (simp add: repeatedKeys_def)
  show "set (repeatedKeys (nodes (sankey journeys maxJourneys))) =
     {k \<in> set (segmentKeys (nodes (sankey journeys maxJourneys))). 1 < count_list (segmentKeys (nodes (sankey journeys maxJourneys))) k}"
    by (rule set_repeatedKeys)
next
  fix l assume "l \<in> set (links (sankey journeys maxJourneys))"
  from link_source_has_node [OF this] obtain s where
    "find (\<lambda>n. node_id n = source l) (nodes (sankey journeys maxJourneys)) = Some s" "s \<in> set (nodes (sankey journeys maxJourneys))"
    "node_id s = source l"
    by (rule find_node_Some)
  then show "\<exists>s \<in> set (nodes (sankey journeys maxJourneys)).
      node_id s = source l \<and> getLinkColor (sankey journeys maxJourneys) linkColor l = getNodeColor (nodes (sankey journeys maxJourneys)) s"
    by (auto simp: getLinkColor_def)
qed

theorem colours_witness:
  "repeatedKeys (nodes (sankey colourJourneys 2)) = [''/x'', ''/y''] \<and>
   node_name (nodes (sankey colourJourneys 2) ! 3) = ''/y/3'' \<and>
   getNodeColor (nodes (sankey colourJourneys 2)) (nodes (sankey colourJourneys 2) ! 3) =
     ''hsl(220, 45%, 50%)'' \<and>
   node_name (nodes (sankey colourJourneys 2) ! 4) = ''/z'' \<and>
   getNodeColor (nodes (sankey colourJourneys 2)) (nodes (sankey colourJourneys 2) ! 4) =
     ''hsl(0, 0%, 50%)'' \<and>
   (\<exists>s \<in> set (nodes (sankey colourJourneys 2)).
      node_id s = source (links (sankey colourJourneys 2) ! 1) \<and>
      getLinkColor (sankey colourJourneys 2) ''hsl(var(--neutral-500))''
          (links (sankey colourJourneys 2) ! 1) =
        getNodeColor (nodes (sankey colourJourneys 2)) s)"
proof -
  let ?G = "sankey colourJourneys 2"
  have rep: "repeatedKeys (nodes ?G) = [''/x'', ''/y'']"
    by code_simp
  have names: "node_name (nodes ?G ! 3) = ''/y/3''" "node_name (nodes ?G ! 4) = ''/z''"
    by code_simp+
  have len: "length (nodes ?G) = 5" "length (links ?G) = 4" by code_simp+
  have m3: "nodes ?G ! 3 \<in> set (nodes ?G)" and m4: "nodes ?G ! 4 \<in> set (nodes ?G)"
    and ml: "links ?G ! 1 \<in> set (links ?G)"
    using len by simp_all
  have k3: "getFirstSegment (node_name (nodes ?G ! 3)) = repeatedKeys (nodes ?G) ! 1"
    by code_simp
  have k4: "count_list (segmentKeys (nodes ?G)) (getFirstSegment (node_name (nodes ?G ! 4))) = 1"
    by code_simp
  have j: "1 < length (repeatedKeys (nodes ?G))" by (simp add: rep)
  note t = colours_by_segment [of colourJourneys 2 "''hsl(var(--neutral-500))''"]
  from t m3 j k3
  have "getNodeColor (nodes ?G) (nodes ?G ! 3) = colorPalette ! (1 mod length colorPalette)"
    by blast
  then have c3: "getNodeColor (nodes ?G) (nodes ?G ! 3) = ''hsl(220, 45%, 50%)''"
    by (simp add: colorPalette_def)
  from t m4 k4 have "getNodeColor (nodes ?G) (nodes ?G ! 4) = defaultColor"
    by blast
  then have c4: "getNodeColor (nodes ?G) (nodes ?G ! 4) = ''hsl(0, 0%, 50%)''"
    by (simp add: defaultColor_def)
  from t ml have "\<exists>s \<in> set (nodes ?G). node_id s = source (links ?G ! 1) \<and>
      getLinkColor ?G ''hsl(var(--neutral-500))'' (links ?G ! 1) = getNodeColor (nodes ?G) s"
    by blast
  with rep names c3 c4 show ?thesis by blast
qed

section \<open>The traversal visits each link once\<close>

lemma nextLinks_refs: "set (nextLinks g d l) \<subseteq> linkRefs g"
  by (cases d) (auto simp: nextLinks_def linkRefs_def split: option.splits dest: find_Some_mem [OF sym])

lemma connectedLoop_distinct:
  "distinct (map (\<lambda>r. linkId (links g ! r)) acc) \<Longrightarrow>
   (\<lambda>r. linkId (links g ! r)) ` set acc \<subseteq> visited \<Longrightarrow>
   distinct (map (\<lambda>r. linkId (links g ! r)) (connectedLoop g d queue visited acc))"
proof (induction g d queue visited acc rule: connectedLoop.induct)
  case (1 g d visited connectedLinks)
  then show ?case by simp
next
  case (2 g d r queue visited connectedLinks)
  show ?case
  proof (cases "linkId (links g ! r) \<in> visited")
    case True
    with 2 show ?thesis by (simp add: Let_def)
  next
    case False
    with "2.prems" have "distinct (map (\<lambda>r. linkId (links g ! r)) (connectedLinks @ [r]))"
      "(\<lambda>r. linkId (links g ! r)) ` set (connectedLinks @ [r]) \<subseteq> insert (linkId (links g ! r)) visited"
      by auto
    from "2.IH"(2) [OF refl refl False this] False show ?thesis by (simp add: Let_def)
  qed
qed

lemma connectedLoop_refs:
  "set acc \<subseteq> V \<Longrightarrow> set queue \<subseteq> V \<Longrightarrow> linkRefs g \<subseteq> V \<Longrightarrow>
   set (connectedLoop g d queue visited acc) \<subseteq> V"
proof (induction g d queue visited acc rule: connectedLoop.induct)
  case (1 g d visited connectedLinks)
  then show ?case by simp
next
  case (2 g d r queue visited connectedLinks)
  show ?case
  proof (cases "linkId (links g ! r) \<in> visited")
    case True
    with 2 show ?thesis by (simp add: Let_def)
  next
    case False
    from "2.prems" nextLinks_refs [of g d "links g ! r"]
    have "set (connectedLinks @ [r]) \<subseteq> V" "set (queue @ nextLinks g d (links g ! r)) \<subseteq> V"
      by auto
    from "2.IH"(2) [OF refl refl False this "2.prems"(3)] False show ?thesis
      by (simp add: Let_def)
  qed
qed

lemma connectedLoop_keeps: "set acc \<subseteq> set (connectedLoop g d queue visited acc)"
proof (induction g d queue visited acc rule: connectedLoop.induct)
  case (1 g d visited connectedLinks)
  then show ?case by simp
next
  case (2 g d r queue visited connectedLinks)
  show ?case
  proof (cases "linkId (links g ! r) \<in> visited")
    case True
    with 2 show ?thesis by (simp add: Let_def)
  next
    case False
    from "2.IH"(2) [OF refl refl False] False show ?thesis by (simp add: Let_def)
  qed
qed

lemma linkRefs_sankey: "linkRefs (sankey js m) \<subseteq> {..<length (links (sankey js m))}"
proof
  fix r assume "r \<in> linkRefs (sankey js m)"
  then obtain n where n: "n \<in> set (nodes (sankey js m))"
    and r: "r \<in> set (incomingLinks n) \<union> set (outgoingLinks n)"
    by (auto simp: linkRefs_def)
  from r sankey_link_lists(1,2) [OF n] show "r \<in> {..<length (links (sankey js m))}" by auto
qed

text \<open>
  C4. \<^const>\<open>connectedLoop\<close> is a total function: its termination is proved where it is
  defined, for every graph, queue and visited set. On the finished graph, from any link of
  the graph and in either direction, the result holds no link id twice and no link twice,
  holds the seed, holds only links of the graph, and so is no longer than \<^verbatim>\<open>links\<close>.
\<close>

theorem connected_paths_visit_each_link_once:
  assumes "startLink < length (links (sankey journeys maxJourneys))"
  shows "distinct (map (\<lambda>r. linkId (links (sankey journeys maxJourneys) ! r))
            (findAllConnectedPaths (sankey journeys maxJourneys) startLink d)) \<and>
         distinct (findAllConnectedPaths (sankey journeys maxJourneys) startLink d) \<and>
         startLink \<in> set (findAllConnectedPaths (sankey journeys maxJourneys) startLink d) \<and>
         set (findAllConnectedPaths (sankey journeys maxJourneys) startLink d)
           \<subseteq> {..<length (links (sankey journeys maxJourneys))} \<and>
         length (findAllConnectedPaths (sankey journeys maxJourneys) startLink d)
           \<le> length (links (sankey journeys maxJourneys))"
proof -
  let ?G = "sankey journeys maxJourneys"
  let ?R = "findAllConnectedPaths ?G startLink d"
  have 1: "distinct (map (\<lambda>r. linkId (links ?G ! r)) ?R)"
    unfolding findAllConnectedPaths_def by (rule connectedLoop_distinct) simp_all
  then have 2: "distinct ?R" by (simp add: distinct_map)
  have 3: "set ?R \<subseteq> {..<length (links ?G)}"
    unfolding findAllConnectedPaths_def
    using assms by (intro connectedLoop_refs linkRefs_sankey) simp_all
  have "set [startLink] \<subseteq> set (connectedLoop ?G d
      ([] @ nextLinks ?G d (links ?G ! startLink)) (insert (linkId (links ?G ! startLink)) {})
      ([] @ [startLink]))"
    using connectedLoop_keeps [of "[startLink]"] by simp
  then have 4: "startLink \<in> set ?R" by (simp add: findAllConnectedPaths_def Let_def)
  from 2 have "length ?R = card (set ?R)" by (simp add: distinct_card)
  also from 3 have "\<dots> \<le> card {..<length (links ?G)}" by (intro card_mono) simp_all
  finally have 5: "length ?R \<le> length (links ?G)" by simp
  from 1 2 3 4 5 show ?thesis by blast
qed

theorem connected_paths_witness:
  "(2::nat) < length (links (sankey exampleJourneys 3)) \<and>
   findAllConnectedPaths (sankey exampleJourneys 3) 2 Backward = [2, 0] \<and>
   length (findAllConnectedPaths (sankey exampleJourneys 3) 2 Backward)
     \<le> length (links (sankey exampleJourneys 3))"
proof -
  have l: "2 < length (links (sankey exampleJourneys 3))" by (simp add: buildGraph_example)
  have "findAllConnectedPaths (sankey exampleJourneys 3) 2 Backward = [2, 0]" by code_simp
  with connected_paths_visit_each_link_once [OF l, of Backward] l show ?thesis by simp
qed

section \<open>Connected paths and the highlight on hover\<close>

text \<open>
  C3 as stated fails. With the journeys \<^verbatim>\<open>/a /b\<close> and \<^verbatim>\<open>/a /c\<close>, the node \<^verbatim>\<open>/c\<close> and the
  link from \<^verbatim>\<open>/a\<close> to \<^verbatim>\<open>/c\<close> are weakly connected to the node \<^verbatim>\<open>/b\<close> through \<^verbatim>\<open>/a\<close>, and
  the hover on \<^verbatim>\<open>/b\<close> highlights neither.
\<close>

theorem hover_misses_weakly_connected:
  "''1_/c'' \<in> weakComponent (sankey scenarioJourneys 2) ''1_/b'' \<and>
   ''1_/c'' \<notin> connectedNodeIds (sankey scenarioJourneys 2) ''1_/b'' \<and>
   source (links (sankey scenarioJourneys 2) ! 1) \<in> weakComponent (sankey scenarioJourneys 2) ''1_/b'' \<and>
   linkId (links (sankey scenarioJourneys 2) ! 1) \<notin> connectedLinkIds (sankey scenarioJourneys 2) ''1_/b''"
proof -
  let ?G = "sankey scenarioJourneys 2"
  have ls: "map (\<lambda>l. (source l, target l)) (links ?G) = [(''0_/a'', ''1_/b''), (''0_/a'', ''1_/c'')]"
    by code_simp
  then have e: "edges ?G = {(''0_/a'', ''1_/b''), (''0_/a'', ''1_/c'')}"
    by (simp add: edges_def)
  have ba: "(''1_/b'', ''0_/a'') \<in> (edges ?G \<union> (edges ?G)\<inverse>)\<^sup>*"
    by (rule r_into_rtrancl) (simp add: e)
  then have 1: "''0_/a'' \<in> weakComponent ?G ''1_/b''" by (simp add: weakComponent_def)
  have "(''0_/a'', ''1_/c'') \<in> edges ?G \<union> (edges ?G)\<inverse>" by (simp add: e)
  with ba have "(''1_/b'', ''1_/c'') \<in> (edges ?G \<union> (edges ?G)\<inverse>)\<^sup>*"
    by (rule rtrancl_into_rtrancl)
  then have 2: "''1_/c'' \<in> weakComponent ?G ''1_/b''" by (simp add: weakComponent_def)
  have s: "source (links ?G ! 1) = ''0_/a''" by code_simp
  have 3: "''1_/c'' \<notin> connectedNodeIds ?G ''1_/b''" by code_simp
  have 4: "linkId (links ?G ! 1) \<notin> connectedLinkIds ?G ''1_/b''" by code_simp
  from 1 2 3 4 s show ?thesis by simp
qed

lemma connectedLoop_sound:
  assumes "\<forall>r \<in> V. set (nextLinks g d (links g ! r)) \<subseteq> follows g d `` {r}"
    and "\<forall>r \<in> V. follows g d `` {r} \<subseteq> V"
    and "set queue \<subseteq> V"
  shows "set (connectedLoop g d queue visited acc) \<subseteq> set acc \<union> (follows g d)\<^sup>* `` set queue"
  using assms
proof (induction g d queue visited acc rule: connectedLoop.induct)
  case (1 g d visited connectedLinks)
  then show ?case by simp
next
  case (2 g d r queue visited connectedLinks)
  from "2.prems"(3) have rV: "r \<in> V" and qV: "set queue \<subseteq> V" by simp_all
  show ?case
  proof (cases "linkId (links g ! r) \<in> visited")
    case True
    from "2.IH"(1) [OF refl refl True "2.prems"(1,2) qV] True show ?thesis
      by (auto simp: Let_def)
  next
    case False
    let ?next = "nextLinks g d (links g ! r)"
    from "2.prems"(1) rV have nx: "set ?next \<subseteq> follows g d `` {r}" by blast
    with "2.prems"(2) rV have "set ?next \<subseteq> V" by blast
    with qV have "set (queue @ ?next) \<subseteq> V" by simp
    from "2.IH"(2) [OF refl refl False "2.prems"(1,2) this]
    have "set (connectedLoop g d (queue @ ?next) (insert (linkId (links g ! r)) visited)
        (connectedLinks @ [r])) \<subseteq> set (connectedLinks @ [r]) \<union> (follows g d)\<^sup>* `` set (queue @ ?next)" .
    moreover have "(follows g d)\<^sup>* `` set ?next \<subseteq> (follows g d)\<^sup>* `` {r}"
      using nx by (auto intro: converse_rtrancl_into_rtrancl)
    ultimately show ?thesis using False by (auto simp: Let_def Image_Un)
  qed
qed

lemma connectedLoop_closed:
  assumes "inj_on (\<lambda>r. linkId (links g ! r)) V"
    and "\<forall>r \<in> V. follows g d `` {r} \<subseteq> set (nextLinks g d (links g ! r))"
    and "\<forall>r \<in> V. set (nextLinks g d (links g ! r)) \<subseteq> V"
    and "set queue \<subseteq> V" and "set acc \<subseteq> V"
    and "visited = (\<lambda>r. linkId (links g ! r)) ` set acc"
    and "\<forall>x \<in> set acc. follows g d `` {x} \<subseteq> set acc \<union> set queue"
  shows "set acc \<union> set queue \<subseteq> set (connectedLoop g d queue visited acc) \<and>
    (\<forall>x \<in> set (connectedLoop g d queue visited acc).
       follows g d `` {x} \<subseteq> set (connectedLoop g d queue visited acc))"
  using assms
proof (induction g d queue visited acc rule: connectedLoop.induct)
  case (1 g d visited connectedLinks)
  then show ?case by simp
next
  case (2 g d r queue visited connectedLinks)
  let ?lid = "\<lambda>r. linkId (links g ! r)"
  from "2.prems"(4) have rV: "r \<in> V" and qV: "set queue \<subseteq> V" by simp_all
  show ?case
  proof (cases "?lid r \<in> visited")
    case True
    with "2.prems"(6) obtain x where x: "x \<in> set connectedLinks" "?lid x = ?lid r" by auto
    with "2.prems"(1,5) rV have "x = r" by (auto dest: inj_onD)
    with x have rin: "r \<in> set connectedLinks" by simp
    with "2.prems"(7) have "\<forall>x \<in> set connectedLinks.
        follows g d `` {x} \<subseteq> set connectedLinks \<union> set queue" by auto
    from "2.IH"(1) [OF refl refl True "2.prems"(1,2,3) qV "2.prems"(5,6) this] True rin
    show ?thesis by (auto simp: Let_def)
  next
    case False
    let ?next = "nextLinks g d (links g ! r)"
    have a: "set (queue @ ?next) \<subseteq> V" using qV "2.prems"(3) rV by simp
    have b: "set (connectedLinks @ [r]) \<subseteq> V" using rV "2.prems"(5) by simp
    have c: "insert (?lid r) visited = ?lid ` set (connectedLinks @ [r])"
      using "2.prems"(6) by auto
    have d: "\<forall>x \<in> set (connectedLinks @ [r]).
        follows g d `` {x} \<subseteq> set (connectedLinks @ [r]) \<union> set (queue @ ?next)"
      using "2.prems"(7) "2.prems"(2) rV by auto
    from "2.IH"(2) [OF refl refl False "2.prems"(1,2,3) a b c d] False
    show ?thesis by (auto simp: Let_def)
  qed
qed

lemma findAllConnectedPaths_reach:
  assumes inj: "inj_on (\<lambda>r. linkId (links g ! r)) V"
    and nx: "\<forall>r \<in> V. set (nextLinks g d (links g ! r)) = follows g d `` {r}"
    and fV: "\<forall>r \<in> V. follows g d `` {r} \<subseteq> V"
    and s: "startLink \<in> V"
  shows "set (findAllConnectedPaths g startLink d) = (follows g d)\<^sup>* `` {startLink}"
proof
  let ?R = "set (findAllConnectedPaths g startLink d)"
  have "?R \<subseteq> set [] \<union> (follows g d)\<^sup>* `` set [startLink]"
    unfolding findAllConnectedPaths_def
    using nx fV s by (intro connectedLoop_sound [where V = V]) auto
  then show "?R \<subseteq> (follows g d)\<^sup>* `` {startLink}" by simp
  have nV: "\<forall>r \<in> V. set (nextLinks g d (links g ! r)) \<subseteq> V"
    using nx fV by blast
  have "set [] \<union> set [startLink] \<subseteq> ?R \<and> (\<forall>x \<in> ?R. follows g d `` {x} \<subseteq> ?R)"
    unfolding findAllConnectedPaths_def
    using inj nx nV s by (intro connectedLoop_closed [where V = V]) auto
  then have st: "startLink \<in> ?R" and cl: "\<And>x y. x \<in> ?R \<Longrightarrow> (x, y) \<in> follows g d \<Longrightarrow> y \<in> ?R"
    by auto
  show "(follows g d)\<^sup>* `` {startLink} \<subseteq> ?R"
  proof
    fix y assume "y \<in> (follows g d)\<^sup>* `` {startLink}"
    then have "(startLink, y) \<in> (follows g d)\<^sup>*" by simp
    then show "y \<in> ?R" by (induction rule: rtrancl_induct) (auto intro: st cl)
  qed
qed


lemma link_target_has_node:
  assumes "l \<in> set (links (sankey js m))"
  shows "target l \<in> node_id ` set (nodes (sankey js m))"
proof -
  from assms have "linkCore l \<in> set (map linkCore (links (sankey js m)))" by simp
  then obtain l0 where l0: "l0 \<in> set (links (buildGraph js m))" "linkCore l0 = linkCore l"
    unfolding cores_sankey by auto
  from link_ends_buildGraph [OF l0(1)] obtain t where
    "t \<in> set (nodes (buildGraph js m))" "node_id t = target l0" by blast
  then have "target l0 \<in> set (map node_id (nodes (buildGraph js m)))" by force
  moreover from l0(2) have "target l0 = target l" by (simp add: linkCore_def)
  ultimately show ?thesis by (simp add: ids_sankey flip: set_map)
qed

lemma nextLinks_sankey:
  assumes r: "r < length (links (sankey js m))"
  shows "set (nextLinks (sankey js m) d (links (sankey js m) ! r)) = follows (sankey js m) d `` {r}"
proof -
  let ?G = "sankey js m"
  from r have l: "links ?G ! r \<in> set (links ?G)" by (rule nth_mem)
  show ?thesis
  proof (cases d)
    case Forward
    let ?t = "target (links ?G ! r)"
    from link_target_has_node [OF l] obtain n where
      n: "find (\<lambda>n. node_id n = ?t) (nodes ?G) = Some n" "n \<in> set (nodes ?G)" "node_id n = ?t"
      by (rule find_node_Some)
    have "nextLinks ?G Forward (links ?G ! r) = outgoingLinks n"
      by (simp only: nextLinks_def n(1) direction.case option.case)
    moreover have "set (outgoingLinks n) =
        {r'. r' < length (links ?G) \<and> source (links ?G ! r') = node_id n}"
      by (rule sankey_link_lists(1) [OF n(2)])
    moreover have "follows ?G Forward `` {r} =
        {r'. r' < length (links ?G) \<and> source (links ?G ! r') = ?t}"
      using r unfolding follows_def by (auto simp del: length_links_sankey)
    ultimately show ?thesis by (simp only: Forward n(3))
  next
    case Backward
    let ?s = "source (links ?G ! r)"
    from link_source_has_node [OF l] obtain n where
      n: "find (\<lambda>n. node_id n = ?s) (nodes ?G) = Some n" "n \<in> set (nodes ?G)" "node_id n = ?s"
      by (rule find_node_Some)
    have "nextLinks ?G Backward (links ?G ! r) = incomingLinks n"
      by (simp only: nextLinks_def n(1) direction.case option.case)
    moreover have "set (incomingLinks n) =
        {r'. r' < length (links ?G) \<and> target (links ?G ! r') = node_id n}"
      by (rule sankey_link_lists(2) [OF n(2)])
    moreover have "follows ?G Backward `` {r} =
        {r'. r' < length (links ?G) \<and> target (links ?G ! r') = ?s}"
      using r unfolding follows_def by (auto simp del: length_links_sankey)
    ultimately show ?thesis by (simp only: Backward n(3))
  qed
qed

lemma follows_valid: "follows g d `` {r} \<subseteq> {..<length (links g)}"
  by (auto simp: follows_def)

lemma linkId_inj:
  assumes "distinct (map linkId (links g))"
  shows "inj_on (\<lambda>r. linkId (links g ! r)) {..<length (links g)}"
proof (rule inj_onI)
  fix x y
  assume "x \<in> {..<length (links g)}" "y \<in> {..<length (links g)}"
    and "linkId (links g ! x) = linkId (links g ! y)"
  then have "x < length (map linkId (links g))" "y < length (map linkId (links g))"
    "map linkId (links g) ! x = map linkId (links g) ! y" by simp_all
  with assms show "x = y" by (simp only: nth_eq_iff_index_eq)
qed

lemma paths_sankey:
  assumes "distinct (map linkId (links (sankey js m)))" and "r < length (links (sankey js m))"
  shows "set (findAllConnectedPaths (sankey js m) r d) = (follows (sankey js m) d)\<^sup>* `` {r}"
proof -
  let ?G = "sankey js m" and ?V = "{..<length (links (sankey js m))}"
  have inj: "inj_on (\<lambda>r. linkId (links ?G ! r)) ?V"
    using assms(1) by (rule linkId_inj)
  have nx: "\<forall>r \<in> ?V. set (nextLinks ?G d (links ?G ! r)) = follows ?G d `` {r}"
    using nextLinks_sankey [of _ js m d] by blast
  have fV: "\<forall>r \<in> ?V. follows ?G d `` {r} \<subseteq> ?V"
    using follows_valid [of ?G d] by blast
  from assms(2) have "r \<in> ?V" by blast
  with inj nx fV show ?thesis by (rule findAllConnectedPaths_reach)
qed

lemma digit_char_not_bar: "d < 10 \<Longrightarrow> digit_char d \<noteq> CHR ''|''"
proof
  assume d: "d < 10" and e: "digit_char d = CHR ''|''"
  from e have "(of_char (char_of (48 + d) :: char) :: nat) = of_char CHR ''|''"
    by (simp add: digit_char_def)
  with d show False by (simp add: of_char_of)
qed

lemma bar_notin_decimal: "CHR ''|'' \<notin> set (decimal n)"
proof (induction n rule: decimal.induct)
  case (1 n)
  show ?case
  proof (cases "n < 10")
    case True
    then show ?thesis using digit_char_not_bar [of n]
      by (subst decimal.simps) auto
  next
    case False
    then show ?thesis using 1 digit_char_not_bar [of "n mod 10"]
      by (subst decimal.simps) auto
  qed
qed

lemma bar_notin_stepKey: "CHR ''|'' \<notin> set a \<Longrightarrow> CHR ''|'' \<notin> set (stepKey i a)"
  by (simp add: stepKey_def bar_notin_decimal)

lemma linkId_inj_on_sources:
  assumes "CHR ''|'' \<notin> set (source l)" and "CHR ''|'' \<notin> set (source l')"
    and "linkId l = linkId l'"
  shows "linkKey l = linkKey l'"
proof -
  from assms(3) have "source l @ CHR ''|'' # (''||'' @ target l)
      = source l' @ CHR ''|'' # (''||'' @ target l')"
    by (simp add: linkId_def)
  from split_at_fresh [OF assms(1,2) this] show ?thesis by (simp add: linkKey_def)
qed

lemma linkId_by_core: "linkId l = fst (linkCore l) @ ''|||'' @ fst (snd (linkCore l))"
  by (simp add: linkId_def linkCore_def)

lemma distinct_linkIds:
  assumes "\<forall>j \<in> set js. \<forall>a \<in> set (path j). CHR ''|'' \<notin> set a"
  shows "distinct (map linkId (links (sankey js m)))"
proof -
  let ?ls = "links (buildGraph js m)"
  have bar: "CHR ''|'' \<notin> set (source l)" if "l \<in> set ?ls" for l
  proof -
    from that have "linkKey l \<in> linkKey ` set ?ls" by simp
    then obtain i j where j: "j \<in> set (slice0 js m)" "Suc i < length (path j)"
      and s: "source l = stepKey i (path j ! i)"
      unfolding linkKeys_buildGraph linkKey_def by blast
    from j set_slice0 [of js m] have "j \<in> set js" "path j ! i \<in> set (path j)" by auto
    with assms show ?thesis by (simp add: s bar_notin_stepKey)
  qed
  have "inj_on linkId (set ?ls)"
  proof (rule inj_onI)
    fix l l' assume l: "l \<in> set ?ls" "l' \<in> set ?ls" and e: "linkId l = linkId l'"
    from linkId_inj_on_sources [OF bar [OF l(1)] bar [OF l(2)] e]
    have k: "linkKey l = linkKey l'" .
    from distinct_links_buildGraph [of js m] have "inj_on linkKey (set ?ls)"
      by (simp add: distinct_map)
    with l k show "l = l'" by (auto dest: inj_onD)
  qed
  moreover from distinct_links_buildGraph [of js m] have "distinct ?ls" by (simp add: distinct_map)
  ultimately have "distinct (map linkId ?ls)" by (simp add: distinct_map)
  moreover have "map linkId (links (sankey js m)) = map linkId ?ls"
  proof -
    have "map linkId xs = map (\<lambda>c. fst c @ ''|||'' @ fst (snd c)) (map linkCore xs)" for xs
      by (simp add: linkId_by_core comp_def)
    then show ?thesis by (simp only: cores_sankey)
  qed
  ultimately show ?thesis by simp
qed

text \<open>
  C3, as the code has it. When no two links have the same id string, the links collected
  on the hover of a node are the links that touch the node together with the links
  reached from one of them forward only or backward only; the highlighted link ids are
  the ids of these links, and the highlighted node ids are the hovered node and the ends
  of these links. By \<open>distinct_linkIds\<close> the ids differ whenever no label holds the
  character \<^verbatim>\<open>|\<close>.
\<close>

theorem hover_highlights_directed_reach:
  assumes "distinct (map linkId (links (sankey journeys maxJourneys)))"
  shows "set (allConnectedLinks (sankey journeys maxJourneys) nodeId) = hoverReach (sankey journeys maxJourneys) nodeId \<and>
    connectedLinkIds (sankey journeys maxJourneys) nodeId = (\<lambda>r. linkId (links (sankey journeys maxJourneys) ! r)) ` hoverReach (sankey journeys maxJourneys) nodeId \<and>
    connectedNodeIds (sankey journeys maxJourneys) nodeId =
      insert nodeId ((\<lambda>r. source (links (sankey journeys maxJourneys) ! r)) ` hoverReach (sankey journeys maxJourneys) nodeId \<union>
                     (\<lambda>r. target (links (sankey journeys maxJourneys) ! r)) ` hoverReach (sankey journeys maxJourneys) nodeId)"
proof -
  have d: "r < length (links (sankey journeys maxJourneys))" if "r \<in> set (directLinks (sankey journeys maxJourneys) nodeId)" for r
    using that by (simp add: directLinks_def)
  have "set (allConnectedLinks (sankey journeys maxJourneys) nodeId) =
      (\<Union>r \<in> set (directLinks (sankey journeys maxJourneys) nodeId).
         {r} \<union> (follows (sankey journeys maxJourneys) Forward)\<^sup>* `` {r} \<union> (follows (sankey journeys maxJourneys) Backward)\<^sup>* `` {r})"
    by (simp add: allConnectedLinks_def paths_sankey [OF assms d])
  also have "\<dots> = hoverReach (sankey journeys maxJourneys) nodeId"
    by (auto simp: hoverReach_def)
  finally have 1: "set (allConnectedLinks (sankey journeys maxJourneys) nodeId) = hoverReach (sankey journeys maxJourneys) nodeId" .
  have 2: "connectedLinkIds (sankey journeys maxJourneys) nodeId = (\<lambda>r. linkId (links (sankey journeys maxJourneys) ! r)) ` hoverReach (sankey journeys maxJourneys) nodeId"
    by (simp add: connectedLinkIds_def 1)
  have 3: "connectedNodeIds (sankey journeys maxJourneys) nodeId =
      insert nodeId ((\<lambda>r. source (links (sankey journeys maxJourneys) ! r)) ` hoverReach (sankey journeys maxJourneys) nodeId \<union>
                     (\<lambda>r. target (links (sankey journeys maxJourneys) ! r)) ` hoverReach (sankey journeys maxJourneys) nodeId)"
    unfolding connectedNodeIds_def 1 [symmetric] by auto
  from 1 2 3 show ?thesis by blast
qed

theorem hover_highlights_witness:
  "distinct (map linkId (links (sankey scenarioJourneys 2))) \<and>
   hoverReach (sankey scenarioJourneys 2) ''1_/b'' = {0} \<and>
   connectedLinkIds (sankey scenarioJourneys 2) ''1_/b'' = {''0_/a|||1_/b''}"
proof -
  let ?G = "sankey scenarioJourneys 2"
  have d: "distinct (map linkId (links ?G))" by code_simp
  have a: "allConnectedLinks ?G ''1_/b'' = [0, 0, 0]" by code_simp
  have i: "linkId (links ?G ! 0) = ''0_/a|||1_/b''" by code_simp
  from hover_highlights_directed_reach [OF d, of "''1_/b''"]
  have h: "hoverReach ?G ''1_/b'' = set (allConnectedLinks ?G ''1_/b'')"
    and c: "connectedLinkIds ?G ''1_/b'' = (\<lambda>r. linkId (links ?G ! r)) ` hoverReach ?G ''1_/b''"
    by simp_all
  from h a have h0: "hoverReach ?G ''1_/b'' = {0}" by simp
  with c i have "connectedLinkIds ?G ''1_/b'' = {''0_/a|||1_/b''}" by simp
  with d h0 show ?thesis by blast
qed

end
